theory Spec2Isabelle
  imports Complex_Main "HOL-Library.List_Lexorder" "HOL-Library.Char_ord" "HOL-Library.Sublist"
begin

section \<open>Token budgeter (src/ai/tokens.js)\<close>

text \<open>
  \<^verbatim>\<open>estimateTokens(text)\<close>: a falsy text (the empty string, or \<^verbatim>\<open>undefined\<close>) gives 0,
  otherwise \<^verbatim>\<open>Math.ceil(text.length / 4)\<close>.
\<close>

definition estimateTokens :: "string \<Rightarrow> nat" where
  "estimateTokens text = (if text = [] then 0 else nat \<lceil>real (length text) / 4\<rceil>)"

text \<open>
  \<^verbatim>\<open>createBatches(messages, {maxTokens, maxMessages})\<close>. The \<^verbatim>\<open>for\<close> loop over the
  messages is the recursion of \<open>createBatches_loop\<close>; its three mutable variables
  \<^verbatim>\<open>batches\<close>, \<^verbatim>\<open>currentBatch\<close> and \<^verbatim>\<open>currentTokens\<close> are passed along. The messages
  are values of any type; \<open>stringify\<close> stands for \<^verbatim>\<open>JSON.stringify\<close> on them.
\<close>

fun createBatches_loop ::
  "('m \<Rightarrow> string) \<Rightarrow> nat \<Rightarrow> nat \<Rightarrow> 'm list \<Rightarrow> 'm list list \<Rightarrow> 'm list \<Rightarrow> nat \<Rightarrow> 'm list list" where
  "createBatches_loop stringify maxTokens maxMessages [] batches currentBatch currentTokens =
     (if length currentBatch > 0 then batches @ [currentBatch] else batches)"
| "createBatches_loop stringify maxTokens maxMessages (message # rest) batches currentBatch currentTokens =
     (let messageTokens = estimateTokens (stringify message) in
      if (currentTokens + messageTokens > maxTokens \<and> length currentBatch > 0)
         \<or> length currentBatch \<ge> maxMessages
      then createBatches_loop stringify maxTokens maxMessages rest
             (batches @ [currentBatch]) [message] messageTokens
      else createBatches_loop stringify maxTokens maxMessages rest
             batches (currentBatch @ [message]) (currentTokens + messageTokens))"

definition createBatches :: "('m \<Rightarrow> string) \<Rightarrow> 'm list \<Rightarrow> nat \<Rightarrow> nat \<Rightarrow> 'm list list" where
  "createBatches stringify messages maxTokens maxMessages =
     createBatches_loop stringify maxTokens maxMessages messages [] [] 0"

text \<open>The summed per-item estimates of a batch.\<close>

definition batchTokens :: "('m \<Rightarrow> string) \<Rightarrow> 'm list \<Rightarrow> nat" where
  "batchTokens stringify batch = sum_list (map (\<lambda>m. estimateTokens (stringify m)) batch)"

text \<open>
  A batch is within the caps when it is not empty, holds at most \<open>maxMessages\<close> items and
  either its summed estimates are at most \<open>maxTokens\<close> or it is one item that is larger
  than \<open>maxTokens\<close> on its own.
\<close>

definition batch_ok :: "('m \<Rightarrow> string) \<Rightarrow> nat \<Rightarrow> nat \<Rightarrow> 'm list \<Rightarrow> bool" where
  "batch_ok stringify maxTokens maxMessages batch \<longleftrightarrow>
     batch \<noteq> [] \<and> length batch \<le> maxMessages \<and>
     (batchTokens stringify batch \<le> maxTokens \<or>
      (\<exists>m. batch = [m] \<and> estimateTokens (stringify m) > maxTokens))"

section \<open>Store (src/storage/repositories/index.js)\<close>

text \<open>
  The tables of the SQLite store, with the columns the repository functions write.
  Identifiers and ISO timestamps are \<^verbatim>\<open>TEXT\<close>, compared bytewise, which is the
  lexicographic order on \<open>string\<close>. The parameter \<open>now\<close> of each function is what
  \<^verbatim>\<open>datetime('now')\<close> returns: the current time in UTC to the whole second, held as the
  milliseconds since the epoch that this text denotes. Nullable columns are options.
  The \<^verbatim>\<open>messages\<close> and \<^verbatim>\<open>sync_state\<close> tables are lists in insertion (rowid) order;
  tables only looked up by their unique key are maps. Typed columns leave no room for
  a constraint failure, so the repository functions are total here. The child tables
  \<^verbatim>\<open>embeds\<close>, \<^verbatim>\<open>attachments\<close> and \<^verbatim>\<open>reactions\<close> are read by none of the functions
  below and are not part of the state.
\<close>

record guild_data =
  g_id :: string
  g_name :: string
  g_icon_url :: "string option"
  g_member_count :: "int option"

record guild_row = guild_data +
  g_updated_at :: int

record channel_data =
  c_id :: string
  c_guild_id :: string
  c_name :: string
  c_type :: int
  c_parent_id :: "string option"
  c_position :: "int option"
  c_topic :: "string option"

record channel_row = channel_data +
  last_scraped_message_id :: "string option"
  last_scraped_at :: "int option"
  message_count :: int
  c_updated_at :: int

record user_data =
  u_id :: string
  u_username :: string
  u_global_name :: "string option"
  u_discriminator :: "string option"
  u_avatar_url :: "string option"
  u_is_bot :: int

record user_row = user_data +
  u_updated_at :: int

record message_row =
  m_id :: string
  m_channel_id :: string
  m_author_id :: string
  m_content :: "string option"
  m_clean_content :: "string option"
  m_timestamp :: string
  m_edited_timestamp :: "string option"
  m_message_type :: int
  m_reference_id :: "string option"
  m_thread_id :: "string option"
  m_has_embeds :: int
  m_has_attachments :: int
  m_reaction_count :: int

record sync_row =
  s_id :: nat
  s_sync_type :: string
  s_guild_id :: "string option"
  s_channel_id :: "string option"
  s_started_at :: int
  s_completed_at :: "int option"
  s_messages_processed :: int
  s_status :: string
  s_error_message :: "string option"

record ai_data =
  a_entity_type :: string
  a_entity_id :: string
  a_stage :: string
  a_result_json :: string
  a_model_used :: "string option"
  a_tokens_in :: "int option"
  a_tokens_out :: "int option"

record ai_row = ai_data +
  a_processed_at :: int

record db =
  tbl_guilds :: "string \<rightharpoonup> guild_row"
  tbl_channels :: "string \<rightharpoonup> channel_row"
  tbl_users :: "string \<rightharpoonup> user_row"
  tbl_messages :: "message_row list"
  tbl_sync_state :: "sync_row list"
  tbl_ai_processing :: "(string \<times> string \<times> string) \<rightharpoonup> ai_row"

definition empty_db :: db where
  "empty_db = \<lparr>tbl_guilds = Map.empty, tbl_channels = Map.empty, tbl_users = Map.empty,
               tbl_messages = [], tbl_sync_state = [], tbl_ai_processing = Map.empty\<rparr>"

text \<open>JavaScript truthiness of a nullable string: \<^verbatim>\<open>null\<close> and \<^verbatim>\<open>''\<close> are falsy.\<close>

fun truthy :: "string option \<Rightarrow> bool" where
  "truthy None = False"
| "truthy (Some s) = (s \<noteq> [])"

definition upsertGuild :: "db \<Rightarrow> int \<Rightarrow> guild_data \<Rightarrow> db" where
  "upsertGuild d now guild = d\<lparr>tbl_guilds := (tbl_guilds d)(g_id guild \<mapsto>
     \<lparr>g_id = g_id guild, g_name = g_name guild, g_icon_url = g_icon_url guild,
      g_member_count = g_member_count guild, g_updated_at = now\<rparr>)\<rparr>"

definition upsertChannel :: "db \<Rightarrow> int \<Rightarrow> channel_data \<Rightarrow> db" where
  "upsertChannel d now channel =
     (case tbl_channels d (c_id channel) of
        None \<Rightarrow> d\<lparr>tbl_channels := (tbl_channels d)(c_id channel \<mapsto>
          \<lparr>c_id = c_id channel, c_guild_id = c_guild_id channel, c_name = c_name channel,
           c_type = c_type channel, c_parent_id = c_parent_id channel,
           c_position = c_position channel, c_topic = c_topic channel,
           last_scraped_message_id = None, last_scraped_at = None, message_count = 0,
           c_updated_at = now\<rparr>)\<rparr>
      | Some row \<Rightarrow> d\<lparr>tbl_channels := (tbl_channels d)(c_id channel \<mapsto>
          row\<lparr>c_name := c_name channel, c_type := c_type channel,
              c_parent_id := c_parent_id channel, c_position := c_position channel,
              c_topic := c_topic channel, c_updated_at := now\<rparr>)\<rparr>)"

text \<open>\<^verbatim>\<open>row?.last_scraped_message_id || null\<close>\<close>

definition getChannelLastScrapedId :: "db \<Rightarrow> string \<Rightarrow> string option" where
  "getChannelLastScrapedId d channelId =
     (case tbl_channels d channelId of
        None \<Rightarrow> None
      | Some row \<Rightarrow> (if truthy (last_scraped_message_id row)
                     then last_scraped_message_id row else None))"

definition updateChannelLastScraped :: "db \<Rightarrow> int \<Rightarrow> string \<Rightarrow> string \<Rightarrow> db" where
  "updateChannelLastScraped d now channelId messageId =
     (case tbl_channels d channelId of
        None \<Rightarrow> d
      | Some row \<Rightarrow> d\<lparr>tbl_channels := (tbl_channels d)(channelId \<mapsto>
          row\<lparr>last_scraped_message_id := Some messageId, last_scraped_at := Some now,
              c_updated_at := now\<rparr>)\<rparr>)"

definition upsertUser :: "db \<Rightarrow> int \<Rightarrow> user_data \<Rightarrow> db" where
  "upsertUser d now user = d\<lparr>tbl_users := (tbl_users d)(u_id user \<mapsto>
     \<lparr>u_id = u_id user, u_username = u_username user, u_global_name = u_global_name user,
      u_discriminator = u_discriminator user, u_avatar_url = u_avatar_url user,
      u_is_bot = u_is_bot user, u_updated_at = now\<rparr>)\<rparr>"

definition getUser :: "db \<Rightarrow> string \<Rightarrow> user_row option" where
  "getUser d userId = tbl_users d userId"

text \<open>
  \<^verbatim>\<open>upsertMessage\<close>: \<^verbatim>\<open>INSERT ... ON CONFLICT(id) DO UPDATE SET\<close> of six columns.
\<close>

definition upsertMessage :: "db \<Rightarrow> message_row \<Rightarrow> db" where
  "upsertMessage d message =
     (if \<exists>row \<in> set (tbl_messages d). m_id row = m_id message
      then d\<lparr>tbl_messages := map (\<lambda>row.
             if m_id row = m_id message
             then row\<lparr>m_content := m_content message,
                      m_clean_content := m_clean_content message,
                      m_edited_timestamp := m_edited_timestamp message,
                      m_has_embeds := m_has_embeds message,
                      m_has_attachments := m_has_attachments message,
                      m_reaction_count := m_reaction_count message\<rparr>
             else row) (tbl_messages d)\<rparr>
      else d\<lparr>tbl_messages := tbl_messages d @ [message]\<rparr>)"

definition getMessage :: "db \<Rightarrow> string \<Rightarrow> message_row option" where
  "getMessage d messageId = find (\<lambda>row. m_id row = messageId) (tbl_messages d)"

text \<open>\<^verbatim>\<open>createSyncState\<close> returns \<^verbatim>\<open>lastInsertRowid\<close> of the autoincrement key.\<close>

definition createSyncState ::
  "db \<Rightarrow> int \<Rightarrow> string \<Rightarrow> string \<Rightarrow> string option \<Rightarrow> nat \<times> db" where
  "createSyncState d now syncType guildId channelId =
     (let rowid = Suc (length (tbl_sync_state d)) in
      (rowid, d\<lparr>tbl_sync_state := tbl_sync_state d @
         [\<lparr>s_id = rowid, s_sync_type = syncType, s_guild_id = Some guildId,
           s_channel_id = channelId, s_started_at = now, s_completed_at = None,
           s_messages_processed = 0, s_status = ''in_progress'',
           s_error_message = None\<rparr>]\<rparr>))"

definition completeSyncState :: "db \<Rightarrow> int \<Rightarrow> nat \<Rightarrow> int \<Rightarrow> db" where
  "completeSyncState d now syncId messagesProcessed =
     d\<lparr>tbl_sync_state := map (\<lambda>row.
        if s_id row = syncId
        then row\<lparr>s_status := ''completed'', s_completed_at := Some now,
                 s_messages_processed := messagesProcessed\<rparr>
        else row) (tbl_sync_state d)\<rparr>"

definition failSyncState :: "db \<Rightarrow> int \<Rightarrow> nat \<Rightarrow> string \<Rightarrow> db" where
  "failSyncState d now syncId errorMessage =
     d\<lparr>tbl_sync_state := map (\<lambda>row.
        if s_id row = syncId
        then row\<lparr>s_status := ''failed'', s_completed_at := Some now,
                 s_error_message := Some errorMessage\<rparr>
        else row) (tbl_sync_state d)\<rparr>"

definition upsertAIProcessing :: "db \<Rightarrow> int \<Rightarrow> ai_data \<Rightarrow> db" where
  "upsertAIProcessing d now data = d\<lparr>tbl_ai_processing :=
     (tbl_ai_processing d)((a_entity_type data, a_entity_id data, a_stage data) \<mapsto>
       \<lparr>a_entity_type = a_entity_type data, a_entity_id = a_entity_id data,
        a_stage = a_stage data, a_result_json = a_result_json data,
        a_model_used = a_model_used data, a_tokens_in = a_tokens_in data,
        a_tokens_out = a_tokens_out data, a_processed_at = now\<rparr>)\<rparr>"

definition getAIProcessing :: "db \<Rightarrow> string \<Rightarrow> string \<Rightarrow> string \<Rightarrow> ai_row option" where
  "getAIProcessing d entityType entityId stage = tbl_ai_processing d (entityType, entityId, stage)"

text \<open>
  \<^verbatim>\<open>new Date(text).getTime()\<close> for a text \<^verbatim>\<open>YYYY-MM-DD HH:MM:SS\<close> that names no zone,
  as \<^verbatim>\<open>datetime('now')\<close> writes it: the text is read as wall-clock time of the local
  zone. A stored time is held as the milliseconds since the epoch that its text
  denotes in UTC; \<open>localOffset\<close> gives the offset of local time from UTC, in
  milliseconds, in force at a wall-clock reading (zero everywhere for a process in
  UTC, \<open>-18000000\<close> for one five hours behind).
\<close>

definition parse_local :: "(int \<Rightarrow> int) \<Rightarrow> int \<Rightarrow> int" where
  "parse_local localOffset wall = wall - localOffset wall"

text \<open>
  \<^verbatim>\<open>shouldProcess(db, entityType, entityId, stage, options)\<close>. An option left out is
  \<open>None\<close> and takes the default of the destructuring (\<^verbatim>\<open>force = false\<close>,
  \<^verbatim>\<open>reprocessAfterDays = 30\<close>). \<open>nowMs\<close> is \<^verbatim>\<open>Date.now()\<close>, and the age is
  \<^verbatim>\<open>Date.now() - new Date(existing.processed_at).getTime()\<close>.
\<close>

record shouldProcess_options =
  sp_force :: "bool option"
  sp_reprocessAfterDays :: "int option"

definition shouldProcess ::
  "db \<Rightarrow> (int \<Rightarrow> int) \<Rightarrow> int \<Rightarrow> string \<Rightarrow> string \<Rightarrow> string \<Rightarrow> shouldProcess_options
     \<Rightarrow> bool" where
  "shouldProcess d localOffset nowMs entityType entityId stage options =
     (let force = (case sp_force options of None \<Rightarrow> False | Some f \<Rightarrow> f);
          reprocessAfterDays = (case sp_reprocessAfterDays options of None \<Rightarrow> 30 | Some n \<Rightarrow> n)
      in if force then True
         else case getAIProcessing d entityType entityId stage of
                None \<Rightarrow> True
              | Some existing \<Rightarrow>
                  if reprocessAfterDays \<noteq> 0
                  then (let age = nowMs - parse_local localOffset (a_processed_at existing);
                            maxAge = reprocessAfterDays * 24 * 60 * 60 * 1000
                        in age > maxAge)
                  else False)"

text \<open>
  \<^verbatim>\<open>getUnprocessedMessages(db, stage, {channelId, limit, startDate, endDate})\<close>: the
  messages with no \<^verbatim>\<open>ai_processing\<close> row for the stage (the \<^verbatim>\<open>LEFT JOIN ... WHERE ap.id IS
  NULL\<close>), each further condition added only when its option is truthy, ordered by
  timestamp (rows with equal timestamps stay in rowid order), then \<^verbatim>\<open>LIMIT\<close>.
\<close>

record query_options =
  q_channelId :: "string option"
  q_limit :: "nat option"
  q_startDate :: "string option"
  q_endDate :: "string option"

definition getUnprocessedMessages :: "db \<Rightarrow> string \<Rightarrow> query_options \<Rightarrow> message_row list" where
  "getUnprocessedMessages d stage options =
     (let rows0 = filter (\<lambda>m. tbl_ai_processing d (''message'', m_id m, stage) = None) (tbl_messages d);
          rows1 = (if truthy (q_channelId options)
                   then filter (\<lambda>m. Some (m_channel_id m) = q_channelId options) rows0 else rows0);
          rows2 = (if truthy (q_startDate options)
                   then filter (\<lambda>m. m_timestamp m \<ge> the (q_startDate options)) rows1 else rows1);
          rows3 = (if truthy (q_endDate options)
                   then filter (\<lambda>m. m_timestamp m < the (q_endDate options)) rows2 else rows2);
          rows4 = sort_key m_timestamp rows3
      in case q_limit options of
           None \<Rightarrow> rows4
         | Some n \<Rightarrow> (if n \<noteq> 0 then take n rows4 else rows4))"

section \<open>Filter stage, up to the model calls (src/ai/stages/filter.js)\<close>

text \<open>
  \<^verbatim>\<open>runFilterStage(db, options)\<close> destructures \<^verbatim>\<open>channelId, startDate, endDate, limit,
  force, dryRun\<close> from its options, selects its messages with \<^verbatim>\<open>getUnprocessedMessages\<close>,
  enriches each with its author, and batches them; unless the selection is empty or the
  run is a dry run, the loop then sends every batch to the model, one call per batch.
  \<open>runFilterStage_messages\<close> is the selection and \<open>runFilterStage_sent\<close> the batches sent.
\<close>

record filter_options =
  f_channelId :: "string option"
  f_startDate :: "string option"
  f_endDate :: "string option"
  f_limit :: "nat option"
  f_force :: "bool option"
  f_dryRun :: "bool option"

record enriched_message =
  e_id :: string
  e_content :: string
  e_timestamp :: string
  e_author :: "user_row option"
  e_has_embeds :: int
  e_has_attachments :: int
  e_reaction_count :: int

text \<open>\<^verbatim>\<open>content: msg.content || msg.clean_content || ''\<close>\<close>

definition enrich :: "db \<Rightarrow> message_row \<Rightarrow> enriched_message" where
  "enrich d msg =
     \<lparr>e_id = m_id msg,
      e_content = (if truthy (m_content msg) then the (m_content msg)
                   else if truthy (m_clean_content msg) then the (m_clean_content msg)
                   else []),
      e_timestamp = m_timestamp msg,
      e_author = getUser d (m_author_id msg),
      e_has_embeds = m_has_embeds msg,
      e_has_attachments = m_has_attachments msg,
      e_reaction_count = m_reaction_count msg\<rparr>"

definition runFilterStage_messages :: "db \<Rightarrow> filter_options \<Rightarrow> message_row list" where
  "runFilterStage_messages d options =
     getUnprocessedMessages d ''filter''
       \<lparr>q_channelId = f_channelId options, q_limit = f_limit options,
        q_startDate = f_startDate options, q_endDate = f_endDate options\<rparr>"

definition runFilterStage_sent ::
  "(enriched_message \<Rightarrow> string) \<Rightarrow> nat \<Rightarrow> nat \<Rightarrow> db \<Rightarrow> filter_options
     \<Rightarrow> enriched_message list list" where
  "runFilterStage_sent stringify maxTokensPerBatch batchSize d options =
     (let dryRun = (case f_dryRun options of None \<Rightarrow> False | Some b \<Rightarrow> b);
          msgs = runFilterStage_messages d options
      in if length msgs = 0 then []
         else let enrichedMessages = map (enrich d) msgs;
                  batches = createBatches stringify enrichedMessages maxTokensPerBatch batchSize
              in if dryRun then [] else batches)"

section \<open>Scrape pass (the \<^verbatim>\<open>scrape\<close> command)\<close>

text \<open>
  What the loop \<^verbatim>\<open>for await (const data of fetchMessages(...))\<close> receives: the bundles
  the generator yields, in order, and the error it throws after them, if it throws.
  A bundle carries the formatted message and its author.
\<close>

record message_bundle =
  b_message :: message_row
  b_user :: user_data

type_synonym fetch_outcome = "message_bundle list \<times> string option"

text \<open>
  The body of the \<^verbatim>\<open>for await\<close> loop: store the user, store the message, track the
  greatest message id (\<^verbatim>\<open>!latestMessageId || data.message.id > latestMessageId\<close>, a
  comparison of strings), count the message.
\<close>

fun scrape_messages ::
  "db \<Rightarrow> int \<Rightarrow> message_bundle list \<Rightarrow> string option \<Rightarrow> nat \<Rightarrow> db \<times> string option \<times> nat" where
  "scrape_messages d now [] latestMessageId channelMessages =
     (d, latestMessageId, channelMessages)"
| "scrape_messages d now (data # rest) latestMessageId channelMessages =
     (let d1 = upsertUser d now (b_user data);
          d2 = upsertMessage d1 (b_message data);
          latest = (if \<not> truthy latestMessageId
                       \<or> m_id (b_message data) > the latestMessageId
                    then Some (m_id (b_message data)) else latestMessageId)
      in scrape_messages d2 now rest latest (channelMessages + 1))"

text \<open>\<^verbatim>\<open>if (isIncremental && !options.full) afterId = getChannelLastScrapedId(db, channel.id)\<close>\<close>

definition startingPoint :: "bool \<Rightarrow> bool \<Rightarrow> db \<Rightarrow> channel_data \<Rightarrow> string option" where
  "startingPoint isIncremental full d channel =
     (if isIncremental \<and> \<not> full then getChannelLastScrapedId d (c_id channel) else None)"

text \<open>
  One iteration of \<^verbatim>\<open>for (const channel of channelsToScrape)\<close>, on the store and the
  two counters. An error thrown by the generator lands in the \<^verbatim>\<open>catch\<close> of the channel:
  the cursor is not written and the counters stay.
\<close>

definition scrape_channel ::
  "(channel_data \<Rightarrow> string option \<Rightarrow> fetch_outcome) \<Rightarrow> bool \<Rightarrow> bool \<Rightarrow> int \<Rightarrow> channel_data
     \<Rightarrow> db \<times> nat \<times> nat \<Rightarrow> db \<times> nat \<times> nat" where
  "scrape_channel fetch isIncremental full now channel st =
     (case st of (d, totalMessages, totalChannels) \<Rightarrow>
        let d1 = upsertChannel d now channel;
            afterId = startingPoint isIncremental full d1 channel
        in case fetch channel afterId of (yielded, err) \<Rightarrow>
             (case scrape_messages d1 now yielded None 0 of
                (d2, latestMessageId, channelMessages) \<Rightarrow>
                  (case err of
                     Some e \<Rightarrow> (d2, totalMessages, totalChannels)
                   | None \<Rightarrow>
                       ((if truthy latestMessageId
                         then updateChannelLastScraped d2 now (c_id channel) (the latestMessageId)
                         else d2),
                        totalMessages + channelMessages, totalChannels + 1))))"

record scrape_options =
  o_full :: bool
  o_incremental :: bool
  o_channel :: "string list option"
  o_dryRun :: bool

datatype exit_status = Finished | Exit1 string

text \<open>\<^verbatim>\<open>toLowerCase\<close> on the letters A to Z.\<close>

definition toLowerCase :: "string \<Rightarrow> string" where
  "toLowerCase s = map (\<lambda>c. if CHR ''A'' \<le> c \<and> c \<le> CHR ''Z''
                             then char_of (of_char c + (32::nat)) else c) s"

text \<open>
  The action of the command, from the point where the guild has been fetched. The
  result of \<^verbatim>\<open>getTextChannels(guild)\<close> is \<open>allChannels\<close>: the channels, or the error the
  call throws. The outer \<^verbatim>\<open>catch\<close> prints the error and exits with status 1. In a dry
  run no store is opened.
\<close>

definition scrapeCommand ::
  "scrape_options \<Rightarrow> int \<Rightarrow> guild_data \<Rightarrow> string + channel_data list \<Rightarrow> (channel_data \<Rightarrow> bool)
     \<Rightarrow> (channel_data \<Rightarrow> string option \<Rightarrow> fetch_outcome) \<Rightarrow> db \<Rightarrow> db \<times> exit_status" where
  "scrapeCommand options now guild allChannels canReadChannel fetch d =
     (let isIncremental = (o_incremental options
                            \<or> (\<not> o_full options \<and> o_channel options = None));
          mode = (if o_full options then ''full''
                  else if isIncremental then ''incremental'' else ''channel'')
      in if o_dryRun options
         then (case allChannels of Inl e \<Rightarrow> (d, Exit1 e) | Inr cs \<Rightarrow> (d, Finished))
         else
           let d1 = upsertGuild d now guild
           in case createSyncState d1 now mode (g_id guild) None of (syncId, d2) \<Rightarrow>
             (case allChannels of
                Inl e \<Rightarrow> (d2, Exit1 e)
              | Inr cs \<Rightarrow>
                  let requested = (case o_channel options of
                                     None \<Rightarrow> cs
                                   | Some names \<Rightarrow>
                                       filter (\<lambda>ch. toLowerCase (c_name ch)
                                                 \<in> set (map toLowerCase names)) cs);
                      channelsToScrape = filter canReadChannel requested
                  in case fold (scrape_channel fetch isIncremental (o_full options) now)
                            channelsToScrape (d2, 0, 0) of
                       (d3, totalMessages, totalChannels) \<Rightarrow>
                         ((if syncId \<noteq> 0
                           then completeSyncState d3 now syncId (int totalMessages) else d3),
                          Finished)))"

section \<open>Message pagination (src/scraper/messages.js)\<close>

text \<open>
  A message as the chat service returns it: its id and creation time; every other field
  only travels into the bundle that \<open>fetchMessages\<close> yields for the message, and the
  model yields the message itself. One request, \<^verbatim>\<open>channel.messages.fetch(fetchOptions)\<close>,
  is the parameter \<open>fetch\<close>: it returns the messages or throws.
\<close>

record discord_message =
  dm_id :: string
  dm_createdTimestamp :: int

record fetch_options =
  fo_limit :: nat
  fo_before :: "string option"
  fo_after :: "string option"

definition FETCH_LIMIT :: nat where
  "FETCH_LIMIT = 100"

text \<open>\<^verbatim>\<open>limit && fetchedCount >= limit\<close>\<close>

definition limit_reached :: "nat option \<Rightarrow> nat \<Rightarrow> bool" where
  "limit_reached limit fetchedCount =
     (case limit of None \<Rightarrow> False | Some l \<Rightarrow> l \<noteq> 0 \<and> fetchedCount \<ge> l)"

text \<open>
  The inner loop \<^verbatim>\<open>for (const message of messageArray)\<close>: the messages yielded, the
  new \<^verbatim>\<open>fetchedCount\<close>, and whether the loop left through its \<^verbatim>\<open>break\<close> (which sets
  \<^verbatim>\<open>hasMore = false\<close>).
\<close>

fun yield_messages ::
  "nat option \<Rightarrow> nat \<Rightarrow> discord_message list \<Rightarrow> discord_message list \<times> nat \<times> bool" where
  "yield_messages limit fetchedCount [] = ([], fetchedCount, False)"
| "yield_messages limit fetchedCount (message # rest) =
     (if limit_reached limit fetchedCount then ([], fetchedCount, True)
      else case yield_messages limit (fetchedCount + 1) rest of
             (ys, n, stopped) \<Rightarrow> (message # ys, n, stopped))"

text \<open>
  The loop \<^verbatim>\<open>while (hasMore)\<close>. Nothing bounds the number of pages an upstream can
  return, so the loop takes fuel, one unit per request, and \<open>None\<close> is running out of
  it. The result is the requests issued, the messages yielded, and the error thrown by
  a request, if one threw. \<^verbatim>\<open>sort((a, b) => b.createdTimestamp - a.createdTimestamp)\<close> is
  a stable sort on the negated creation time.
\<close>

fun fetchMessages_loop ::
  "nat \<Rightarrow> (fetch_options \<Rightarrow> string + discord_message list) \<Rightarrow> string option \<Rightarrow> nat option
     \<Rightarrow> nat \<Rightarrow> string option
     \<Rightarrow> (fetch_options list \<times> discord_message list \<times> string option) option" where
  "fetchMessages_loop 0 fetch after limit fetchedCount lastId = None"
| "fetchMessages_loop (Suc fuel) fetch after limit fetchedCount lastId =
     (if limit_reached limit fetchedCount then Some ([], [], None)
      else
        let fetchOptions =
              (if truthy lastId
               then \<lparr>fo_limit = FETCH_LIMIT, fo_before = lastId, fo_after = None\<rparr>
               else if truthy after
               then \<lparr>fo_limit = FETCH_LIMIT, fo_before = None, fo_after = after\<rparr>
               else \<lparr>fo_limit = FETCH_LIMIT, fo_before = None, fo_after = None\<rparr>)
        in case fetch fetchOptions of
             Inl e \<Rightarrow> Some ([fetchOptions], [], Some e)
           | Inr msgs \<Rightarrow>
               if length msgs = 0 then Some ([fetchOptions], [], None)
               else
                 let messageArray = sort_key (\<lambda>m. - dm_createdTimestamp m) msgs
                 in case yield_messages limit fetchedCount messageArray of
                      (ys, n, stopped) \<Rightarrow>
                        let newLastId = Some (dm_id (last messageArray));
                            hasMore = (\<not> stopped \<and> \<not> length msgs < FETCH_LIMIT)
                        in if hasMore
                           then (case fetchMessages_loop fuel fetch after limit n newLastId of
                                   None \<Rightarrow> None
                                 | Some (reqs, out, err) \<Rightarrow>
                                     Some (fetchOptions # reqs, ys @ out, err))
                           else Some ([fetchOptions], ys, None))"

text \<open>
  \<^verbatim>\<open>fetchMessages(channel, {before, after, limit})\<close>: \<^verbatim>\<open>fetchedCount = 0\<close>,
  \<^verbatim>\<open>lastId = before\<close>.
\<close>

definition fetchMessages ::
  "nat \<Rightarrow> (fetch_options \<Rightarrow> string + discord_message list) \<Rightarrow> string option \<Rightarrow> string option
     \<Rightarrow> nat option
     \<Rightarrow> (fetch_options list \<times> discord_message list \<times> string option) option" where
  "fetchMessages fuel fetch before after limit = fetchMessages_loop fuel fetch after limit 0 before"

text \<open>
  Decimal digits of a number, as \<^verbatim>\<open>String(n)\<close> and a template literal print it.
\<close>

function decimal :: "nat \<Rightarrow> string" where
  "decimal n = (if n < 10 then [''0123456789'' ! n]
                else decimal (n div 10) @ [''0123456789'' ! (n mod 10)])"
  by pat_completeness auto
termination
  by (relation "measure id") auto

declare decimal.simps [simp del]

text \<open>
  An upstream for a channel with a fixed list of messages, given newest first, serving
  a request the way the chat service does: with \<^verbatim>\<open>before\<close>, the newest \<^verbatim>\<open>limit\<close>
  messages older than that id; with \<^verbatim>\<open>after\<close>, the oldest \<^verbatim>\<open>limit\<close> messages newer than
  that id; with neither, the newest \<^verbatim>\<open>limit\<close> messages. Ids are compared as strings.
\<close>

definition upstream_fetch ::
  "discord_message list \<Rightarrow> fetch_options \<Rightarrow> string + discord_message list" where
  "upstream_fetch newestFirst opts =
     (case fo_before opts of
        Some b \<Rightarrow> Inr (take (fo_limit opts) (filter (\<lambda>m. dm_id m < b) newestFirst))
      | None \<Rightarrow>
          (case fo_after opts of
             Some a \<Rightarrow> (let newer = filter (\<lambda>m. dm_id m > a) newestFirst
                        in Inr (drop (length newer - fo_limit opts) newer))
           | None \<Rightarrow> Inr (take (fo_limit opts) newestFirst)))"

text \<open>A channel of 120 messages with the ids 101 to 220, created in that order.\<close>

definition channel_101_220 :: "discord_message list" where
  "channel_101_220 =
     map (\<lambda>k. \<lparr>dm_id = decimal k, dm_createdTimestamp = int k\<rparr>) (rev [101..<221])"

section \<open>Retry driver (src/ai/client.js)\<close>

text \<open>
  An error object with the two fields the retry test reads. The function retried is
  \<open>fn\<close>, given by the result of its call at each attempt; \<open>random\<close> gives the value
  \<^verbatim>\<open>Math.random()\<close> returns at each attempt. JavaScript numbers are real numbers here,
  with exact arithmetic. What the caller observes is an outcome and the sequence of
  requests and sleeps (in milliseconds).
\<close>

record js_error =
  err_status :: "int option"
  err_code :: "string option"

datatype 'a outcome = Returned 'a | Threw js_error | ReturnedUndefined

datatype retry_event = Request nat | Sleep int

record retry_options =
  rt_maxRetries :: nat
  rt_baseDelay :: real
  rt_backoffMultiplier :: real
  rt_maxDelay :: "real option"

text \<open>\<^verbatim>\<open>Math.round\<close>: the nearest integer, halves upwards.\<close>

definition Math_round :: "real \<Rightarrow> int" where
  "Math_round x = \<lfloor>x + 1 / 2\<rfloor>"

definition isRetryable :: "js_error \<Rightarrow> bool" where
  "isRetryable error \<longleftrightarrow>
     err_status error = Some 429 \<or> err_status error = Some 500 \<or> err_status error = Some 503
     \<or> err_code error = Some ''ECONNRESET'' \<or> err_code error = Some ''ETIMEDOUT''"

text \<open>
  \<^verbatim>\<open>delay = Math.min(baseDelay * Math.pow(backoffMultiplier, attempt - 1), maxDelay)\<close>,
  \<^verbatim>\<open>jitter = delay * 0.1 * Math.random()\<close>, \<^verbatim>\<open>totalDelay = Math.round(delay + jitter)\<close>.
\<close>

definition totalDelay :: "real \<Rightarrow> real \<Rightarrow> real \<Rightarrow> real \<Rightarrow> nat \<Rightarrow> int" where
  "totalDelay baseDelay backoffMultiplier maxDelay rnd attempt =
     (let delay = min (baseDelay * backoffMultiplier ^ (attempt - 1)) maxDelay;
          jitter = delay * (1 / 10) * rnd
      in Math_round (delay + jitter))"

function processWithRetry_loop ::
  "(nat \<Rightarrow> js_error + 'a) \<Rightarrow> (nat \<Rightarrow> real) \<Rightarrow> nat \<Rightarrow> real \<Rightarrow> real \<Rightarrow> real \<Rightarrow> nat
     \<Rightarrow> 'a outcome \<times> retry_event list" where
  "processWithRetry_loop fn random maxRetries baseDelay backoffMultiplier maxDelay attempt =
     (if attempt \<le> maxRetries
      then (case fn attempt of
              Inr v \<Rightarrow> (Returned v, [Request attempt])
            | Inl error \<Rightarrow>
                if \<not> isRetryable error \<or> attempt = maxRetries
                then (Threw error, [Request attempt])
                else (case processWithRetry_loop fn random maxRetries baseDelay
                             backoffMultiplier maxDelay (attempt + 1) of
                        (result, events) \<Rightarrow>
                          (result,
                           Request attempt
                           # Sleep (totalDelay baseDelay backoffMultiplier maxDelay
                                      (random attempt) attempt)
                           # events)))
      else (ReturnedUndefined, []))"
  by pat_completeness auto
termination
  by (relation "measure (\<lambda>(fn, random, maxRetries, baseDelay, backoffMultiplier, maxDelay,
        attempt). Suc maxRetries - attempt)") auto

declare processWithRetry_loop.simps [simp del]

text \<open>\<^verbatim>\<open>processWithRetry(fn, options)\<close>; \<^verbatim>\<open>maxDelay\<close> defaults to 30000.\<close>

definition processWithRetry ::
  "(nat \<Rightarrow> js_error + 'a) \<Rightarrow> (nat \<Rightarrow> real) \<Rightarrow> retry_options \<Rightarrow> 'a outcome \<times> retry_event list" where
  "processWithRetry fn random options =
     processWithRetry_loop fn random (rt_maxRetries options) (rt_baseDelay options)
       (rt_backoffMultiplier options)
       (case rt_maxDelay options of None \<Rightarrow> 30000 | Some m \<Rightarrow> m) 1"

fun is_Request :: "retry_event \<Rightarrow> bool" where
  "is_Request (Request k) = True"
| "is_Request (Sleep t) = False"

section \<open>Response validation (src/ai/validation.js)\<close>

text \<open>
  A parsed JSON value; the members of an object are a list of pairs, looked up with
  \<open>map_of\<close> (the keys of a parsed object are distinct).
\<close>

datatype json =
  JNull | JBool bool | JNum real | JStr string | JArr "json list" | JObj "(string \<times> json) list"

text \<open>
  A schema object with the keywords the four schemas of the file use: \<^verbatim>\<open>type\<close>,
  \<^verbatim>\<open>properties\<close>, \<^verbatim>\<open>items\<close>, \<^verbatim>\<open>required\<close>, \<^verbatim>\<open>enum\<close>, \<^verbatim>\<open>minimum\<close>, \<^verbatim>\<open>maximum\<close>. A keyword
  left out is \<open>None\<close> or the empty list.
\<close>

datatype schema =
  Schema (sc_type: "string option") (sc_properties: "(string \<times> schema) list")
    (sc_items: "schema option") (sc_required: "string list") (sc_enum: "json list option")
    (sc_minimum: "real option") (sc_maximum: "real option")

fun type_matches :: "string \<Rightarrow> json \<Rightarrow> bool" where
  "type_matches t JNull = (t = ''null'')"
| "type_matches t (JBool b) = (t = ''boolean'')"
| "type_matches t (JNum x) = (t = ''number'')"
| "type_matches t (JStr s) = (t = ''string'')"
| "type_matches t (JArr xs) = (t = ''array'')"
| "type_matches t (JObj members) = (t = ''object'')"

text \<open>
  What the function compiled by \<^verbatim>\<open>ajv.compile(schema)\<close> decides, keyword by keyword:
  \<^verbatim>\<open>properties\<close> and \<^verbatim>\<open>required\<close> constrain objects only, \<^verbatim>\<open>items\<close> arrays only,
  \<^verbatim>\<open>minimum\<close> and \<^verbatim>\<open>maximum\<close> numbers only; a property that is absent is not checked;
  members not named in \<^verbatim>\<open>properties\<close> are allowed.
\<close>

fun validate :: "schema \<Rightarrow> json \<Rightarrow> bool" where
  "validate (Schema ty props items req enum mn mx) v \<longleftrightarrow>
     (case ty of None \<Rightarrow> True | Some t \<Rightarrow> type_matches t v)
     \<and> (case v of
          JObj members \<Rightarrow>
            (\<forall>p \<in> set props.
               case map_of members (fst p) of None \<Rightarrow> True | Some x \<Rightarrow> validate (snd p) x)
            \<and> (\<forall>k \<in> set req. map_of members k \<noteq> None)
        | JArr xs \<Rightarrow> (case items of None \<Rightarrow> True | Some s \<Rightarrow> (\<forall>x \<in> set xs. validate s x))
        | JNum x \<Rightarrow> (case mn of None \<Rightarrow> True | Some m \<Rightarrow> m \<le> x)
                  \<and> (case mx of None \<Rightarrow> True | Some m \<Rightarrow> x \<le> m)
        | _ \<Rightarrow> True)
     \<and> (case enum of None \<Rightarrow> True | Some vs \<Rightarrow> v \<in> set vs)"

text \<open>\<^verbatim>\<open>{ type: t }\<close>, \<^verbatim>\<open>{ type: 'array', items: s }\<close> and \<^verbatim>\<open>{ type: 'string', enum: [...] }\<close>.\<close>

definition typed :: "string \<Rightarrow> schema" where
  "typed t = Schema (Some t) [] None [] None None None"

definition array_of :: "schema \<Rightarrow> schema" where
  "array_of s = Schema (Some ''array'') [] (Some s) [] None None None"

definition string_enum :: "string list \<Rightarrow> schema" where
  "string_enum vs = Schema (Some ''string'') [] None [] (Some (map JStr vs)) None None"

definition object_schema :: "(string \<times> schema) list \<Rightarrow> string list \<Rightarrow> schema" where
  "object_schema props req = Schema (Some ''object'') props None req None None None"

definition unit_interval :: schema where
  "unit_interval = Schema (Some ''number'') [] None [] None (Some 0) (Some 1)"

definition filterResponseSchema :: schema where
  "filterResponseSchema =
     object_schema
       [(''decisions'', array_of (object_schema
           [(''id'', typed ''string''), (''keep'', typed ''boolean''),
            (''reason'', typed ''string''), (''quality_score'', unit_interval)]
           [''id'', ''keep'']))]
       [''decisions'']"

definition categorizeItemSchema :: schema where
  "categorizeItemSchema =
     object_schema
       [(''id'', typed ''string''),
        (''primary_topic'', typed ''string''),
        (''secondary_topics'', array_of (typed ''string'')),
        (''sentiment'', string_enum [''positive'', ''neutral'', ''negative'', ''mixed'']),
        (''urgency'', string_enum [''high'', ''medium'', ''low'']),
        (''marketing_relevance'', string_enum [''high'', ''medium'', ''low''])]
       [''id'', ''primary_topic'']"

definition categorizeResponseSchema :: schema where
  "categorizeResponseSchema =
     object_schema [(''categorizations'', array_of categorizeItemSchema)] [''categorizations'']"

definition summarizeResponseSchema :: schema where
  "summarizeResponseSchema =
     object_schema
       [(''summary'', object_schema
           [(''headline'', typed ''string''),
            (''key_points'', array_of (typed ''string'')),
            (''notable_messages'', array_of (typed ''string'')),
            (''themes'', array_of (typed ''string'')),
            (''sentiment_overview'', typed ''string''),
            (''action_items'', array_of (typed ''string''))]
           [''headline'', ''key_points''])]
       [''summary'']"

definition extractResponseSchema :: schema where
  "extractResponseSchema =
     object_schema
       [(''extracts'', array_of (object_schema
           [(''id'', typed ''string''), (''source_message_id'', typed ''string''),
            (''type'', typed ''string''), (''content'', typed ''string''),
            (''context'', typed ''string''), (''relevance_score'', unit_interval),
            (''requires_permission'', typed ''boolean'')]
           [''id'', ''content'', ''type'']))]
       [''extracts'']"

definition validators :: "string \<rightharpoonup> schema" where
  "validators = [''filter'' \<mapsto> filterResponseSchema, ''categorize'' \<mapsto> categorizeResponseSchema,
                 ''summarize'' \<mapsto> summarizeResponseSchema, ''extract'' \<mapsto> extractResponseSchema]"

datatype validation_error = NoValidatorForStage string | InvalidAIResponse string

definition validateResponse :: "string \<Rightarrow> json \<Rightarrow> validation_error + json" where
  "validateResponse stage response =
     (case validators stage of
        None \<Rightarrow> Inl (NoValidatorForStage stage)
      | Some validator \<Rightarrow>
          if \<not> validate validator response then Inl (InvalidAIResponse stage)
          else Inr response)"

text \<open>
  The shape of one categorization that the validator lets through, in the words of the
  amended claim C9: an object whose \<open>id\<close> and \<open>primary_topic\<close> are strings, whose
  \<open>sentiment\<close>, \<open>urgency\<close> and \<open>marketing_relevance\<close> are each absent or a string of the
  enumeration, and whose \<open>secondary_topics\<close> is absent or an array of strings.
\<close>

definition has_string :: "(string \<times> json) list \<Rightarrow> string \<Rightarrow> bool" where
  "has_string members k = (case map_of members k of Some (JStr s) \<Rightarrow> True | _ \<Rightarrow> False)"

definition absent_or_one_of :: "(string \<times> json) list \<Rightarrow> string \<Rightarrow> string list \<Rightarrow> bool" where
  "absent_or_one_of members k vs =
     (case map_of members k of None \<Rightarrow> True | Some (JStr s) \<Rightarrow> s \<in> set vs | _ \<Rightarrow> False)"

definition is_JStr :: "json \<Rightarrow> bool" where
  "is_JStr v = (case v of JStr s \<Rightarrow> True | _ \<Rightarrow> False)"

definition absent_or_strings :: "(string \<times> json) list \<Rightarrow> string \<Rightarrow> bool" where
  "absent_or_strings members k =
     (case map_of members k of None \<Rightarrow> True | Some (JArr xs) \<Rightarrow> list_all is_JStr xs | _ \<Rightarrow> False)"

definition categorization_shape :: "json \<Rightarrow> bool" where
  "categorization_shape item =
     (case item of
        JObj members \<Rightarrow>
          has_string members ''id'' \<and> has_string members ''primary_topic''
          \<and> absent_or_strings members ''secondary_topics''
          \<and> absent_or_one_of members ''sentiment'' [''positive'', ''neutral'', ''negative'', ''mixed'']
          \<and> absent_or_one_of members ''urgency'' [''high'', ''medium'', ''low'']
          \<and> absent_or_one_of members ''marketing_relevance'' [''high'', ''medium'', ''low'']
      | _ \<Rightarrow> False)"

section \<open>Anonymizer (src/utils/privacy.js)\<close>

text \<open>
  The state of one anonymizer: the \<^verbatim>\<open>Map\<close> from username to alias, as its entries in
  insertion order, and the counter.
\<close>

record anonymizer_state =
  an_mapping :: "(string \<times> string) list"
  an_counter :: nat

definition createAnonymizer :: anonymizer_state where
  "createAnonymizer = \<lparr>an_mapping = [], an_counter = 0\<rparr>"

text \<open>
  The alias built for a value of the counter: \<^verbatim>\<open>letter = String.fromCharCode(65 +
  ((counter - 1) % 26))\<close>, \<^verbatim>\<open>suffix = counter > 26 ? Math.floor((counter - 1) / 26) : ''\<close>,
  and the template \<^verbatim>\<open>User_${letter}${suffix}\<close>.
\<close>

definition alias_of :: "nat \<Rightarrow> string" where
  "alias_of counter =
     (let letter = char_of (65 + (counter - 1) mod 26);
          suffix = (if counter > 26 then decimal ((counter - 1) div 26) else [])
      in ''User_'' @ [letter] @ suffix)"

text \<open>
  \<^verbatim>\<open>anonymize(username)\<close>: the alias returned and the state afterwards. A falsy
  username (the empty string) gives \<^verbatim>\<open>'User_Unknown'\<close> and allocates nothing.
\<close>

definition anonymize :: "anonymizer_state \<Rightarrow> string \<Rightarrow> string \<times> anonymizer_state" where
  "anonymize st username =
     (if username = [] then (''User_Unknown'', st)
      else case map_of (an_mapping st) username of
             Some alias \<Rightarrow> (alias, st)
           | None \<Rightarrow>
               (let counter = an_counter st + 1
                in (alias_of counter,
                    \<lparr>an_mapping = an_mapping st @ [(username, alias_of counter)],
                     an_counter = counter\<rparr>)))"

text \<open>The class \<^verbatim>\<open>\w\<close> of the pattern \<^verbatim>\<open>/@(\w+)/g\<close>.\<close>

definition is_word_char :: "char \<Rightarrow> bool" where
  "is_word_char c \<longleftrightarrow>
     (CHR ''a'' \<le> c \<and> c \<le> CHR ''z'') \<or> (CHR ''A'' \<le> c \<and> c \<le> CHR ''Z'')
     \<or> (CHR ''0'' \<le> c \<and> c \<le> CHR ''9'') \<or> c = CHR ''_''"

text \<open>
  \<^verbatim>\<open>anonymizeMentions(content, anonymizer)\<close>: every match of the pattern, found from
  left to right with the longest run of word characters after the \<^verbatim>\<open>@\<close>, is replaced
  by \<^verbatim>\<open>@\<close> and the alias of the run.
\<close>

function anonymizeMentions :: "anonymizer_state \<Rightarrow> string \<Rightarrow> string \<times> anonymizer_state" where
  "anonymizeMentions st [] = ([], st)"
| "anonymizeMentions st (c # cs) =
     (if c = CHR ''@'' \<and> takeWhile is_word_char cs \<noteq> []
      then (case anonymize st (takeWhile is_word_char cs) of
              (alias, st1) \<Rightarrow>
                (case anonymizeMentions st1 (dropWhile is_word_char cs) of
                   (rest, st2) \<Rightarrow> (CHR ''@'' # alias @ rest, st2)))
      else (case anonymizeMentions st cs of (rest, st1) \<Rightarrow> (c # rest, st1)))"
  by pat_completeness auto
termination
  by (relation "measure (\<lambda>(st, s). length s)")
    (auto simp: less_Suc_eq_le length_dropWhile_le)

text \<open>
  The members of a message that \<^verbatim>\<open>anonymizeMessages\<close> reads; every other member is
  copied by the spread \<^verbatim>\<open>{ ...msg }\<close> and stays in the extension of the record.
\<close>

record author =
  au_username :: string
  au_global_name :: "string option"

record anon_message =
  am_author :: "author option"
  am_author_id :: "string option"
  am_content :: "string option"
  am_clean_content :: "string option"

text \<open>
  The new \<^verbatim>\<open>author\<close> object: \<^verbatim>\<open>username\<close> first, then \<^verbatim>\<open>global_name\<close>, which is
  anonymized when truthy and \<^verbatim>\<open>null\<close> otherwise.
\<close>

definition anonymizeAuthor :: "anonymizer_state \<Rightarrow> author \<Rightarrow> author \<times> anonymizer_state" where
  "anonymizeAuthor st a =
     (case anonymize st (au_username a) of
        (username, st1) \<Rightarrow>
          if truthy (au_global_name a)
          then (case anonymize st1 (the (au_global_name a)) of
                  (global_name, st2) \<Rightarrow>
                    (a\<lparr>au_username := username, au_global_name := Some global_name\<rparr>, st2))
          else (a\<lparr>au_username := username, au_global_name := None\<rparr>, st1))"

text \<open>\<^verbatim>\<open>content\<close> and \<^verbatim>\<open>clean_content\<close>: rewritten when the option is set and the text is truthy.\<close>

definition anonymizeText ::
  "bool \<Rightarrow> anonymizer_state \<Rightarrow> string option \<Rightarrow> string option \<times> anonymizer_state" where
  "anonymizeText anonymizeContent st text =
     (if anonymizeContent \<and> truthy text
      then (case anonymizeMentions st (the text) of (t, st1) \<Rightarrow> (Some t, st1))
      else (text, st))"

text \<open>The callback of \<^verbatim>\<open>messages.map\<close>; \<^verbatim>\<open>author_id.slice(-4)\<close> is the last four characters.\<close>

definition anonymizeMessage ::
  "bool \<Rightarrow> anonymizer_state \<Rightarrow> anon_message \<Rightarrow> anon_message \<times> anonymizer_state" where
  "anonymizeMessage anonymizeContent st msg =
     (case (case am_author msg of
              None \<Rightarrow> (None, st)
            | Some a \<Rightarrow> (case anonymizeAuthor st a of (a1, s) \<Rightarrow> (Some a1, s))) of
        (new_author, st1) \<Rightarrow>
          (case anonymizeText anonymizeContent st1 (am_content msg) of
             (content, st2) \<Rightarrow>
               (case anonymizeText anonymizeContent st2 (am_clean_content msg) of
                  (clean_content, st3) \<Rightarrow>
                    (msg\<lparr>am_author := new_author,
                         am_author_id :=
                           (if truthy (am_author_id msg)
                            then Some (''anon_'' @ drop (length (the (am_author_id msg)) - 4)
                                                     (the (am_author_id msg)))
                            else am_author_id msg),
                         am_content := content,
                         am_clean_content := clean_content\<rparr>,
                     st3))))"

fun anonymizeMessages_loop ::
  "bool \<Rightarrow> anonymizer_state \<Rightarrow> anon_message list \<Rightarrow> anon_message list \<times> anonymizer_state" where
  "anonymizeMessages_loop anonymizeContent st [] = ([], st)"
| "anonymizeMessages_loop anonymizeContent st (msg # rest) =
     (case anonymizeMessage anonymizeContent st msg of
        (anonymized, st1) \<Rightarrow>
          (case anonymizeMessages_loop anonymizeContent st1 rest of
             (out, st2) \<Rightarrow> (anonymized # out, st2)))"

text \<open>
  \<^verbatim>\<open>anonymizeMessages(messages, {anonymizeContent})\<close>: a fresh anonymizer for the call;
  the result is the anonymized messages and \<^verbatim>\<open>getMapping()\<close>, the object
  \<^verbatim>\<open>Object.fromEntries(mapping)\<close>: a finite map from usernames to aliases, holding the
  pairs of the \<^verbatim>\<open>Map\<close> (the order in which an object lists its keys is not part of it).
\<close>

definition anonymizeMessages ::
  "anon_message list \<Rightarrow> bool \<Rightarrow> anon_message list \<times> (string \<rightharpoonup> string)" where
  "anonymizeMessages msgs anonymizeContent =
     (case anonymizeMessages_loop anonymizeContent createAnonymizer msgs of
        (out, st) \<Rightarrow> (out, map_of (an_mapping st)))"

text \<open>
  The usernames handed to \<^verbatim>\<open>anonymize\<close> during a call, in call order: the runs matched
  in a text, the names of one message, the names of all messages.
\<close>

function mention_names :: "string \<Rightarrow> string list" where
  "mention_names [] = []"
| "mention_names (c # cs) =
     (if c = CHR ''@'' \<and> takeWhile is_word_char cs \<noteq> []
      then takeWhile is_word_char cs # mention_names (dropWhile is_word_char cs)
      else mention_names cs)"
  by pat_completeness auto
termination
  by (relation "measure length") (auto simp: less_Suc_eq_le length_dropWhile_le)

definition author_names :: "author \<Rightarrow> string list" where
  "author_names a =
     au_username a # (if truthy (au_global_name a) then [the (au_global_name a)] else [])"

definition text_names :: "bool \<Rightarrow> string option \<Rightarrow> string list" where
  "text_names anonymizeContent text =
     (if anonymizeContent \<and> truthy text then mention_names (the text) else [])"

definition message_names :: "bool \<Rightarrow> anon_message \<Rightarrow> string list" where
  "message_names anonymizeContent msg =
     (case am_author msg of None \<Rightarrow> [] | Some a \<Rightarrow> author_names a)
     @ text_names anonymizeContent (am_content msg)
     @ text_names anonymizeContent (am_clean_content msg)"

definition names_handed :: "bool \<Rightarrow> anon_message list \<Rightarrow> string list" where
  "names_handed anonymizeContent msgs = concat (map (message_names anonymizeContent) msgs)"

text \<open>The elements of a list in the order of their first appearance.\<close>

function first_appearances :: "'a list \<Rightarrow> 'a list" where
  "first_appearances [] = []"
| "first_appearances (x # xs) = x # first_appearances (filter (\<lambda>y. y \<noteq> x) xs)"
  by pat_completeness auto
termination
  by (relation "measure length") (auto simp: less_Suc_eq_le)

text \<open>Handing a list of names to an anonymizer, one after the other.\<close>

definition feed :: "string list \<Rightarrow> anonymizer_state \<Rightarrow> anonymizer_state" where
  "feed names st = fold (\<lambda>u s. snd (anonymize s u)) names st"

text \<open>
  The counter counts the entries, and the entries carry the aliases of 1, 2, ... in
  this order.
\<close>

definition anonymizer_inv :: "anonymizer_state \<Rightarrow> bool" where
  "anonymizer_inv st \<longleftrightarrow>
     an_counter st = length (an_mapping st)
     \<and> map snd (an_mapping st) = map alias_of [1..<Suc (length (an_mapping st))]"

text \<open>
  An operation on the anonymizer tracks a list of names when it leaves the state that
  handing these names over leaves, and returns the same result, allocating nothing,
  from every state whose mapping extends the mapping it leaves.
\<close>

definition tracks :: "(anonymizer_state \<Rightarrow> 'r \<times> anonymizer_state) \<Rightarrow> string list \<Rightarrow> bool" where
  "tracks f names \<longleftrightarrow>
     (\<forall>st. snd (f st) = feed names st
        \<and> (\<forall>stF. prefix (an_mapping (snd (f st))) (an_mapping stF)
                \<longrightarrow> f stF = (fst (f st), stF)))"

text \<open>
  What the claim on aliases says of the output, written without an anonymizer: given
  one finished mapping, every username, global name and mention is replaced by the
  alias the mapping holds for it (\<^verbatim>\<open>'User_Unknown'\<close> for an empty name), and
  \<^verbatim>\<open>author_id\<close> by \<^verbatim>\<open>anon_\<close> and its last four characters. \<open>alias_in\<close> is the lookup,
  \<open>substitute_mentions\<close> the replacement of the matches of \<^verbatim>\<open>/@(\w+)/g\<close> in a text, and
  \<open>anonymized_with\<close> the whole message.
\<close>

definition alias_in :: "(string \<rightharpoonup> string) \<Rightarrow> string \<Rightarrow> string" where
  "alias_in mapping username =
     (if username = [] then ''User_Unknown''
      else case mapping username of Some alias \<Rightarrow> alias | None \<Rightarrow> ''User_Unknown'')"

function substitute_mentions :: "(string \<Rightarrow> string) \<Rightarrow> string \<Rightarrow> string" where
  "substitute_mentions f [] = []"
| "substitute_mentions f (c # cs) =
     (if c = CHR ''@'' \<and> takeWhile is_word_char cs \<noteq> []
      then CHR ''@'' # f (takeWhile is_word_char cs)
             @ substitute_mentions f (dropWhile is_word_char cs)
      else c # substitute_mentions f cs)"
  by pat_completeness auto
termination
  by (relation "measure (\<lambda>(f, s). length s)") (auto simp: less_Suc_eq_le length_dropWhile_le)

definition anonymized_with :: "(string \<rightharpoonup> string) \<Rightarrow> bool \<Rightarrow> anon_message \<Rightarrow> anon_message" where
  "anonymized_with mapping anonymizeContent msg =
     msg\<lparr>am_author :=
           (case am_author msg of
              None \<Rightarrow> None
            | Some a \<Rightarrow>
                Some (a\<lparr>au_username := alias_in mapping (au_username a),
                        au_global_name :=
                          (if truthy (au_global_name a)
                           then Some (alias_in mapping (the (au_global_name a)))
                           else None)\<rparr>)),
         am_author_id :=
           (if truthy (am_author_id msg)
            then Some (''anon_'' @ drop (length (the (am_author_id msg)) - 4)
                                     (the (am_author_id msg)))
            else am_author_id msg),
         am_content :=
           (if anonymizeContent \<and> truthy (am_content msg)
            then Some (substitute_mentions (alias_in mapping) (the (am_content msg)))
            else am_content msg),
         am_clean_content :=
           (if anonymizeContent \<and> truthy (am_clean_content msg)
            then Some (substitute_mentions (alias_in mapping) (the (am_clean_content msg)))
            else am_clean_content msg)\<rparr>"

section \<open>Properties of the token budgeter\<close>

lemma estimateTokens_div: "estimateTokens text = (length text + 3) div 4"
proof (cases "text = []")
  case True
  then show ?thesis by (simp add: estimateTokens_def)
next
  case False
  have "\<lceil>real (length text) / 4\<rceil> = \<lceil>real_of_int (int (length text)) / real_of_int 4\<rceil>"
    by simp
  also have "\<dots> = - (- int (length text) div 4)"
    by (rule ceiling_divide_eq_div)
  also have "\<dots> = int ((length text + 3) div 4)"
    by (simp add: zdiv_int)
  finally show ?thesis using False by (simp add: estimateTokens_def)
qed

lemma createBatches_loop_concat:
  "concat (createBatches_loop stringify maxTokens maxMessages ms batches cur ctoks)
     = concat batches @ cur @ ms"
  by (induction ms arbitrary: batches cur ctoks) (simp_all add: Let_def)

lemma createBatches_loop_ok:
  assumes "0 < maxMessages"
    and "\<forall>b \<in> set batches. batch_ok stringify maxTokens maxMessages b"
    and "cur = [] \<or> batch_ok stringify maxTokens maxMessages cur"
    and "ctoks = batchTokens stringify cur"
  shows "\<forall>b \<in> set (createBatches_loop stringify maxTokens maxMessages ms batches cur ctoks).
           batch_ok stringify maxTokens maxMessages b"
  using assms
proof (induction ms arbitrary: batches cur ctoks)
  case Nil
  then show ?case by auto
next
  case (Cons m rest)
  let ?t = "estimateTokens (stringify m)"
  have single: "batch_ok stringify maxTokens maxMessages [m]"
    using Cons.prems(1) by (auto simp: batch_ok_def batchTokens_def)
  show ?case
  proof (cases "(ctoks + ?t > maxTokens \<and> length cur > 0) \<or> length cur \<ge> maxMessages")
    case True
    then have "cur \<noteq> []" using Cons.prems(1) by auto
    with Cons.prems(2,3)
    have all_ok: "\<forall>b \<in> set (batches @ [cur]). batch_ok stringify maxTokens maxMessages b"
      by auto
    have step: "createBatches_loop stringify maxTokens maxMessages (m # rest) batches cur ctoks
        = createBatches_loop stringify maxTokens maxMessages rest (batches @ [cur]) [m] ?t"
      using True by (simp add: Let_def)
    have tk: "?t = batchTokens stringify [m]"
      by (simp add: batchTokens_def)
    have "\<forall>b \<in> set (createBatches_loop stringify maxTokens maxMessages rest
              (batches @ [cur]) [m] ?t). batch_ok stringify maxTokens maxMessages b"
      by (rule Cons.IH [OF Cons.prems(1) all_ok _ tk]) (rule disjI2, rule single)
    then show ?thesis by (simp only: step)
  next
    case False
    then have len: "length cur < maxMessages"
      and tok: "cur = [] \<or> ctoks + ?t \<le> maxTokens" by auto
    have ok: "batch_ok stringify maxTokens maxMessages (cur @ [m])"
    proof (cases "cur = []")
      case True
      with single show ?thesis by simp
    next
      case False
      with tok Cons.prems(4) len show ?thesis
        by (auto simp: batch_ok_def batchTokens_def)
    qed
    have step: "createBatches_loop stringify maxTokens maxMessages (m # rest) batches cur ctoks
        = createBatches_loop stringify maxTokens maxMessages rest batches (cur @ [m]) (ctoks + ?t)"
      using len tok by (auto simp: Let_def)
    have tk: "ctoks + ?t = batchTokens stringify (cur @ [m])"
      using Cons.prems(4) by (simp add: batchTokens_def)
    have "\<forall>b \<in> set (createBatches_loop stringify maxTokens maxMessages rest
              batches (cur @ [m]) (ctoks + ?t)). batch_ok stringify maxTokens maxMessages b"
      by (rule Cons.IH [OF Cons.prems(1) Cons.prems(2) _ tk]) (rule disjI2, rule ok)
    then show ?thesis by (simp only: step)
  qed
qed

text \<open>
  C1. For every list of messages and every positive \<open>maxMessages\<close> (and any \<open>maxTokens\<close>,
  positive or not), the batches returned by \<open>createBatches\<close> concatenate to the input in
  order, and each batch is non-empty, holds at most \<open>maxMessages\<close> items, and has summed
  estimates of at most \<open>maxTokens\<close> unless it is a single item whose own estimate is
  above \<open>maxTokens\<close>.
\<close>

theorem createBatches_packing:
  assumes "0 < maxMessages"
  shows "concat (createBatches stringify messages maxTokens maxMessages) = messages \<and>
         (\<forall>b \<in> set (createBatches stringify messages maxTokens maxMessages).
            length b \<le> maxMessages \<and>
            (batchTokens stringify b \<le> maxTokens \<or>
             (\<exists>m. b = [m] \<and> estimateTokens (stringify m) > maxTokens)))"
proof -
  have "\<forall>b \<in> set (createBatches stringify messages maxTokens maxMessages).
          batch_ok stringify maxTokens maxMessages b"
    unfolding createBatches_def
    by (rule createBatches_loop_ok [OF assms]) (simp_all add: batchTokens_def)
  then show ?thesis
    by (simp add: createBatches_def createBatches_loop_concat batch_ok_def)
qed

theorem createBatches_packing_witness:
  "(0::nat) < 2 \<and>
   createBatches id [''aaaaaaaa'', ''bbbb'', ''cccccccccccccccccccc'', ''dd'', ''e'', ''f''] 3 2
     = [[''aaaaaaaa'', ''bbbb''], [''cccccccccccccccccccc''], [''dd'', ''e''], [''f'']] \<and>
   concat (createBatches id
     [''aaaaaaaa'', ''bbbb'', ''cccccccccccccccccccc'', ''dd'', ''e'', ''f''] 3 2)
     = [''aaaaaaaa'', ''bbbb'', ''cccccccccccccccccccc'', ''dd'', ''e'', ''f'']"
  using createBatches_packing [of 2 id
      "[''aaaaaaaa'', ''bbbb'', ''cccccccccccccccccccc'', ''dd'', ''e'', ''f'']" 3]
  by (simp add: createBatches_def estimateTokens_div)

section \<open>Properties of the store\<close>

lemma find_map_keep_id:
  assumes "\<And>row. m_id (f row) = m_id row"
  shows "find (\<lambda>row. m_id row = i) (map f rows) = map_option f (find (\<lambda>row. m_id row = i) rows)"
  using assms by (induction rows) simp_all

lemma find_Some_in_set: "find P rows = Some x \<Longrightarrow> x \<in> set rows \<and> P x"
  by (induction rows) (auto split: if_splits)

text \<open>
  C6. When a row with the id of the payload exists, \<open>upsertMessage\<close> leaves that row with
  its \<open>content\<close>, \<open>clean_content\<close>, \<open>edited_timestamp\<close>, \<open>has_embeds\<close>, \<open>has_attachments\<close>
  and \<open>reaction_count\<close> taken from the payload and every other column as it was: \<open>id\<close>,
  \<open>channel_id\<close>, \<open>author_id\<close>, \<open>timestamp\<close>, \<open>message_type\<close>, \<open>reference_id\<close> and
  \<open>thread_id\<close> keep the stored values. No row is added and no other row changes.
\<close>

theorem upsertMessage_conflict_frame:
  assumes "getMessage d (m_id message) = Some old"
  shows "getMessage (upsertMessage d message) (m_id message) =
           Some (old\<lparr>m_content := m_content message,
                     m_clean_content := m_clean_content message,
                     m_edited_timestamp := m_edited_timestamp message,
                     m_has_embeds := m_has_embeds message,
                     m_has_attachments := m_has_attachments message,
                     m_reaction_count := m_reaction_count message\<rparr>)
       \<and> (\<exists>new. getMessage (upsertMessage d message) (m_id message) = Some new
             \<and> m_timestamp new = m_timestamp old \<and> m_id new = m_id old
             \<and> m_channel_id new = m_channel_id old \<and> m_author_id new = m_author_id old
             \<and> m_message_type new = m_message_type old
             \<and> m_reference_id new = m_reference_id old \<and> m_thread_id new = m_thread_id old)
       \<and> length (tbl_messages (upsertMessage d message)) = length (tbl_messages d)
       \<and> (\<forall>i. i \<noteq> m_id message \<longrightarrow>
             getMessage (upsertMessage d message) i = getMessage d i)"
proof -
  let ?f = "\<lambda>row. if m_id row = m_id message
             then row\<lparr>m_content := m_content message,
                      m_clean_content := m_clean_content message,
                      m_edited_timestamp := m_edited_timestamp message,
                      m_has_embeds := m_has_embeds message,
                      m_has_attachments := m_has_attachments message,
                      m_reaction_count := m_reaction_count message\<rparr>
             else row"
  from assms have old: "old \<in> set (tbl_messages d)" "m_id old = m_id message"
    using find_Some_in_set [of "\<lambda>row. m_id row = m_id message" "tbl_messages d" old]
    by (simp_all add: getMessage_def)
  then have ex: "\<exists>row \<in> set (tbl_messages d). m_id row = m_id message" by blast
  have up: "tbl_messages (upsertMessage d message) = map ?f (tbl_messages d)"
    using ex by (simp add: upsertMessage_def)
  have keep: "\<And>row. m_id (?f row) = m_id row" by simp
  have look: "\<And>i. getMessage (upsertMessage d message) i = map_option ?f (getMessage d i)"
    unfolding getMessage_def up by (rule find_map_keep_id [OF keep])
  have at: "getMessage (upsertMessage d message) (m_id message) = Some (?f old)"
    using look [of "m_id message"] assms by simp
  have other: "\<forall>i. i \<noteq> m_id message \<longrightarrow> getMessage (upsertMessage d message) i = getMessage d i"
  proof (intro allI impI)
    fix i assume ne: "i \<noteq> m_id message"
    show "getMessage (upsertMessage d message) i = getMessage d i"
    proof (cases "getMessage d i")
      case None
      then show ?thesis using look [of i] by simp
    next
      case (Some r)
      then have "m_id r = i"
        using find_Some_in_set [of "\<lambda>row. m_id row = i" "tbl_messages d" r]
        by (simp add: getMessage_def)
      with ne Some show ?thesis using look [of i] by simp
    qed
  qed
  from at old(2) other up show ?thesis by simp
qed

theorem upsertMessage_conflict_frame_witness:
  "getMessage
     (upsertMessage
        (empty_db\<lparr>tbl_messages :=
           [\<lparr>m_id = ''100'', m_channel_id = ''c1'', m_author_id = ''u1'',
             m_content = Some ''hello'', m_clean_content = Some ''hello'',
             m_timestamp = ''2024-06-15T10:00:00.000Z'', m_edited_timestamp = None,
             m_message_type = 0, m_reference_id = None, m_thread_id = None,
             m_has_embeds = 0, m_has_attachments = 0, m_reaction_count = 0\<rparr>]\<rparr>)
        \<lparr>m_id = ''100'', m_channel_id = ''c2'', m_author_id = ''u2'',
         m_content = Some ''hello, edited'', m_clean_content = Some ''hello, edited'',
         m_timestamp = ''2024-06-16T11:00:00.000Z'',
         m_edited_timestamp = Some ''2024-06-15T10:05:00.000Z'',
         m_message_type = 19, m_reference_id = Some ''99'', m_thread_id = Some ''7'',
         m_has_embeds = 1, m_has_attachments = 0, m_reaction_count = 3\<rparr>)
     ''100''
   = Some \<lparr>m_id = ''100'', m_channel_id = ''c1'', m_author_id = ''u1'',
            m_content = Some ''hello, edited'', m_clean_content = Some ''hello, edited'',
            m_timestamp = ''2024-06-15T10:00:00.000Z'',
            m_edited_timestamp = Some ''2024-06-15T10:05:00.000Z'',
            m_message_type = 0, m_reference_id = None, m_thread_id = None,
            m_has_embeds = 1, m_has_attachments = 0, m_reaction_count = 3\<rparr>"
  using upsertMessage_conflict_frame [of
      "empty_db\<lparr>tbl_messages :=
           [\<lparr>m_id = ''100'', m_channel_id = ''c1'', m_author_id = ''u1'',
             m_content = Some ''hello'', m_clean_content = Some ''hello'',
             m_timestamp = ''2024-06-15T10:00:00.000Z'', m_edited_timestamp = None,
             m_message_type = 0, m_reference_id = None, m_thread_id = None,
             m_has_embeds = 0, m_has_attachments = 0, m_reaction_count = 0\<rparr>]\<rparr>"
      "\<lparr>m_id = ''100'', m_channel_id = ''c2'', m_author_id = ''u2'',
         m_content = Some ''hello, edited'', m_clean_content = Some ''hello, edited'',
         m_timestamp = ''2024-06-16T11:00:00.000Z'',
         m_edited_timestamp = Some ''2024-06-15T10:05:00.000Z'',
         m_message_type = 19, m_reference_id = Some ''99'', m_thread_id = Some ''7'',
         m_has_embeds = 1, m_has_attachments = 0, m_reaction_count = 3\<rparr>"]
  by (simp add: getMessage_def empty_db_def)




text \<open>
  Outside UTC the stored text is still read as local time. In a process five hours
  behind UTC, a row stored three days and one second before \<^verbatim>\<open>Date.now()\<close> is given an
  age five hours short of that, and with \<open>reprocessAfterDays = 3\<close> the result is false.
\<close>

lemma shouldProcess_local_time_parse:
  "\<not> shouldProcess
     (upsertAIProcessing empty_db 0
        \<lparr>a_entity_type = ''message'', a_entity_id = ''100'', a_stage = ''filter'',
         a_result_json = ''{}'', a_model_used = None, a_tokens_in = None,
         a_tokens_out = None\<rparr>)
     (\<lambda>w. - 18000000) (3 * 24 * 60 * 60 * 1000 + 1000) ''message'' ''100'' ''filter''
     \<lparr>sp_force = Some False, sp_reprocessAfterDays = Some 3\<rparr>"
  by (simp add: shouldProcess_def parse_local_def getAIProcessing_def upsertAIProcessing_def
      empty_db_def)

section \<open>Properties of the filter stage\<close>

lemma getUnprocessedMessages_subset:
  "set (getUnprocessedMessages d stage options)
     \<subseteq> {m \<in> set (tbl_messages d). tbl_ai_processing d (''message'', m_id m, stage) = None}"
  unfolding getUnprocessedMessages_def Let_def
  by (auto split: option.splits if_splits dest: in_set_takeD)

text \<open>
  C10. The messages \<open>runFilterStage\<close> selects, and the batches it sends to the model, do
  not depend on \<open>force\<close>: for the same store and the same other options, any two values
  of \<open>force\<close> give the same selection and the same batches. Every selected message, and
  every message of every batch sent, has no \<open>filter\<close> row in \<open>ai_processing\<close>.
\<close>

theorem runFilterStage_force_no_effect:
  "runFilterStage_messages d (options\<lparr>f_force := forceA\<rparr>)
     = runFilterStage_messages d (options\<lparr>f_force := forceB\<rparr>)
   \<and> runFilterStage_sent stringify maxTokensPerBatch batchSize d (options\<lparr>f_force := forceA\<rparr>)
     = runFilterStage_sent stringify maxTokensPerBatch batchSize d (options\<lparr>f_force := forceB\<rparr>)
   \<and> (\<forall>m \<in> set (runFilterStage_messages d options).
         getAIProcessing d ''message'' (m_id m) ''filter'' = None)
   \<and> (\<forall>batch \<in> set (runFilterStage_sent stringify maxTokensPerBatch batchSize d options).
        \<forall>e \<in> set batch. getAIProcessing d ''message'' (e_id e) ''filter'' = None)"
proof -
  have sel: "\<forall>m \<in> set (runFilterStage_messages d options).
         getAIProcessing d ''message'' (m_id m) ''filter'' = None"
    using getUnprocessedMessages_subset [of d "''filter''"]
    by (auto simp: runFilterStage_messages_def getAIProcessing_def)
  have sent: "\<forall>batch \<in> set (runFilterStage_sent stringify maxTokensPerBatch batchSize d options).
        \<forall>e \<in> set batch. getAIProcessing d ''message'' (e_id e) ''filter'' = None"
  proof (intro ballI)
    fix batch e
    assume b: "batch \<in> set (runFilterStage_sent stringify maxTokensPerBatch batchSize d options)"
      and e: "e \<in> set batch"
    let ?en = "map (enrich d) (runFilterStage_messages d options)"
    from b have "batch \<in> set (createBatches stringify ?en maxTokensPerBatch batchSize)"
      by (auto simp: runFilterStage_sent_def Let_def split: if_splits)
    with e have "e \<in> set (concat (createBatches stringify ?en maxTokensPerBatch batchSize))"
      by auto
    then have "e \<in> set ?en"
      by (simp add: createBatches_def createBatches_loop_concat)
    then obtain m where "m \<in> set (runFilterStage_messages d options)" "e = enrich d m"
      by auto
    with sel show "getAIProcessing d ''message'' (e_id e) ''filter'' = None"
      by (simp add: enrich_def)
  qed
  show ?thesis
    using sel sent by (simp add: runFilterStage_sent_def runFilterStage_messages_def)
qed

theorem runFilterStage_force_no_effect_witness:
  "runFilterStage_messages
     (upsertAIProcessing
        (empty_db\<lparr>tbl_messages :=
           [\<lparr>m_id = ''100'', m_channel_id = ''c1'', m_author_id = ''u1'',
             m_content = Some ''hello'', m_clean_content = Some ''hello'',
             m_timestamp = ''2024-06-15T10:00:00.000Z'', m_edited_timestamp = None,
             m_message_type = 0, m_reference_id = None, m_thread_id = None,
             m_has_embeds = 0, m_has_attachments = 0, m_reaction_count = 0\<rparr>,
            \<lparr>m_id = ''200'', m_channel_id = ''c1'', m_author_id = ''u1'',
             m_content = Some ''world'', m_clean_content = Some ''world'',
             m_timestamp = ''2024-06-15T11:00:00.000Z'', m_edited_timestamp = None,
             m_message_type = 0, m_reference_id = None, m_thread_id = None,
             m_has_embeds = 0, m_has_attachments = 0, m_reaction_count = 0\<rparr>]\<rparr>)
        0
        \<lparr>a_entity_type = ''message'', a_entity_id = ''100'', a_stage = ''filter'',
         a_result_json = ''{}'', a_model_used = None, a_tokens_in = None,
         a_tokens_out = None\<rparr>)
     \<lparr>f_channelId = None, f_startDate = None, f_endDate = None, f_limit = None,
      f_force = Some True, f_dryRun = None\<rparr>
   = [\<lparr>m_id = ''200'', m_channel_id = ''c1'', m_author_id = ''u1'',
             m_content = Some ''world'', m_clean_content = Some ''world'',
             m_timestamp = ''2024-06-15T11:00:00.000Z'', m_edited_timestamp = None,
             m_message_type = 0, m_reference_id = None, m_thread_id = None,
             m_has_embeds = 0, m_has_attachments = 0, m_reaction_count = 0\<rparr>]"
  using runFilterStage_force_no_effect [where forceA = "Some True" and forceB = "Some False"
      and stringify = e_content and maxTokensPerBatch = 1000 and batchSize = 50 and d =
      "upsertAIProcessing
        (empty_db\<lparr>tbl_messages :=
           [\<lparr>m_id = ''100'', m_channel_id = ''c1'', m_author_id = ''u1'',
             m_content = Some ''hello'', m_clean_content = Some ''hello'',
             m_timestamp = ''2024-06-15T10:00:00.000Z'', m_edited_timestamp = None,
             m_message_type = 0, m_reference_id = None, m_thread_id = None,
             m_has_embeds = 0, m_has_attachments = 0, m_reaction_count = 0\<rparr>,
            \<lparr>m_id = ''200'', m_channel_id = ''c1'', m_author_id = ''u1'',
             m_content = Some ''world'', m_clean_content = Some ''world'',
             m_timestamp = ''2024-06-15T11:00:00.000Z'', m_edited_timestamp = None,
             m_message_type = 0, m_reference_id = None, m_thread_id = None,
             m_has_embeds = 0, m_has_attachments = 0, m_reaction_count = 0\<rparr>]\<rparr>)
        0
        \<lparr>a_entity_type = ''message'', a_entity_id = ''100'', a_stage = ''filter'',
         a_result_json = ''{}'', a_model_used = None, a_tokens_in = None,
         a_tokens_out = None\<rparr>"
      and options =
      "\<lparr>f_channelId = None, f_startDate = None, f_endDate = None, f_limit = None,
        f_force = Some True, f_dryRun = None\<rparr>"]
  by (simp add: runFilterStage_messages_def getUnprocessedMessages_def upsertAIProcessing_def
      empty_db_def)

section \<open>Properties of the scrape pass\<close>

lemma upsertUser_tables [simp]:
  "tbl_messages (upsertUser d now u) = tbl_messages d"
  "tbl_channels (upsertUser d now u) = tbl_channels d"
  "tbl_sync_state (upsertUser d now u) = tbl_sync_state d"
  by (simp_all add: upsertUser_def)

lemma upsertMessage_tables [simp]:
  "tbl_channels (upsertMessage d m) = tbl_channels d"
  "tbl_sync_state (upsertMessage d m) = tbl_sync_state d"
  by (simp_all add: upsertMessage_def)

lemma upsertMessage_ids:
  "m_id ` set (tbl_messages (upsertMessage d m)) = insert (m_id m) (m_id ` set (tbl_messages d))"
proof (cases "\<exists>row \<in> set (tbl_messages d). m_id row = m_id m")
  case True
  let ?f = "\<lambda>row. if m_id row = m_id m
             then row\<lparr>m_content := m_content m, m_clean_content := m_clean_content m,
                      m_edited_timestamp := m_edited_timestamp m,
                      m_has_embeds := m_has_embeds m,
                      m_has_attachments := m_has_attachments m,
                      m_reaction_count := m_reaction_count m\<rparr>
             else row"
  have "map m_id (map ?f (tbl_messages d)) = map m_id (tbl_messages d)"
    by (induction "tbl_messages d") simp_all
  then have same: "m_id ` set (map ?f (tbl_messages d)) = m_id ` set (tbl_messages d)"
    by (metis set_map)
  from True have "tbl_messages (upsertMessage d m) = map ?f (tbl_messages d)"
    by (simp add: upsertMessage_def)
  then have "m_id ` set (tbl_messages (upsertMessage d m)) = m_id ` set (tbl_messages d)"
    by (simp only: same)
  moreover from True have "m_id m \<in> m_id ` set (tbl_messages d)"
    by (metis imageI)
  ultimately show ?thesis by (simp add: insert_absorb)
next
  case False
  then show ?thesis by (simp add: upsertMessage_def)
qed

lemma scrape_messages_tables:
  "scrape_messages d now ys latest n = (d', latest', n') \<Longrightarrow>
     tbl_channels d' = tbl_channels d \<and> tbl_sync_state d' = tbl_sync_state d \<and>
     m_id ` set (tbl_messages d') = m_id ` set (tbl_messages d) \<union> (m_id \<circ> b_message) ` set ys \<and>
     n' = n + length ys"
proof (induction ys arbitrary: d latest n)
  case Nil
  then show ?case by simp
next
  case (Cons y ys)
  let ?d2 = "upsertMessage (upsertUser d now (b_user y)) (b_message y)"
  let ?l = "if \<not> truthy latest \<or> m_id (b_message y) > the latest
            then Some (m_id (b_message y)) else latest"
  from Cons.prems have "scrape_messages ?d2 now ys ?l (n + 1) = (d', latest', n')"
    by (simp add: Let_def)
  from Cons.IH [OF this] show ?case
    by (simp add: upsertMessage_ids)
qed

lemma empty_string_least: "([] :: string) \<le> s"
  by (cases s) simp_all

lemma track_latest:
  "(if \<not> truthy latest \<or> i > the latest then Some i else latest)
     = Some (Max (insert i (set_option (if truthy latest then latest else None))))"
proof (cases latest)
  case None
  then show ?thesis by simp
next
  case (Some l)
  show ?thesis
  proof (cases "l = []")
    case True
    with Some show ?thesis by simp
  next
    case False
    with Some show ?thesis by (auto simp: max_def)
  qed
qed

lemma scrape_messages_latest:
  "scrape_messages d now ys latest n = (d', latest', n') \<Longrightarrow> ys \<noteq> [] \<Longrightarrow>
     latest' = Some (Max ((m_id \<circ> b_message) ` set ys
                          \<union> set_option (if truthy latest then latest else None)))"
proof (induction ys arbitrary: d latest n)
  case Nil
  then show ?case by simp
next
  case (Cons y ys)
  let ?d2 = "upsertMessage (upsertUser d now (b_user y)) (b_message y)"
  let ?i = "m_id (b_message y)"
  let ?S = "set_option (if truthy latest then latest else None)"
  let ?l = "if \<not> truthy latest \<or> ?i > the latest then Some ?i else latest"
  have l: "?l = Some (Max (insert ?i ?S))" by (rule track_latest)
  have fin: "finite ?S" by (cases latest) simp_all
  from Cons.prems have run: "scrape_messages ?d2 now ys ?l (n + 1) = (d', latest', n')"
    by (simp add: Let_def)
  show ?case
  proof (cases "ys = []")
    case True
    with run l show ?thesis by simp
  next
    case False
    let ?m = "Max (insert ?i ?S)"
    have tr: "truthy ?l \<or> ?m = []" using l by (cases "?m = []") simp_all
    let ?Y = "(m_id \<circ> b_message) ` set ys"
    have Y: "finite ?Y" "?Y \<noteq> {}" using False by simp_all
    from Cons.IH [OF run False]
    have "latest' = Some (Max (?Y \<union> set_option (if truthy ?l then ?l else None)))" .
    also have "Max (?Y \<union> set_option (if truthy ?l then ?l else None)) = Max (?Y \<union> {?m})"
    proof (cases "truthy ?l")
      case True
      with l show ?thesis by simp
    next
      case False
      with tr have "?m = []" by blast
      moreover have "Max (?Y \<union> {[]}) = Max ?Y"
        using Y by (simp add: max_def empty_string_least)
      ultimately show ?thesis using False by simp
    qed
    also have "Max (?Y \<union> {?m}) = Max (?Y \<union> insert ?i ?S)"
    proof -
      have "Max (?Y \<union> {?m}) = max (Max ?Y) ?m"
        using Y by (simp add: max.commute)
      also have "\<dots> = Max (?Y \<union> insert ?i ?S)"
        using Y fin by (subst Max_Un) simp_all
      finally show ?thesis .
    qed
    finally show ?thesis by simp
  qed
qed

text \<open>
  C2. A channel pass whose generator ends without an error and yields messages with
  non-empty ids: when at least one message is yielded, the stored cursor of the channel
  afterwards is the greatest yielded id in the lexicographic order of strings, every
  yielded message is in the \<open>messages\<close> table, and the pass counts as a scraped channel;
  when nothing is yielded, \<open>last_scraped_message_id\<close> and \<open>last_scraped_at\<close> of the
  channel are what they were before the pass (null for a channel first seen now).
\<close>

theorem scrape_channel_cursor:
  assumes "fetch channel (startingPoint isIncremental full (upsertChannel d now channel) channel)
             = (yielded, None)"
    and "\<forall>data \<in> set yielded. m_id (b_message data) \<noteq> []"
    and "scrape_channel fetch isIncremental full now channel (d, totalMessages, totalChannels)
             = (d', totalMessages', totalChannels')"
  shows "(yielded \<noteq> [] \<longrightarrow>
            getChannelLastScrapedId d' (c_id channel)
              = Some (Max ((m_id \<circ> b_message) ` set yielded)))
       \<and> (yielded = [] \<longrightarrow>
            (\<exists>row. tbl_channels d' (c_id channel) = Some row
               \<and> last_scraped_message_id row
                   = (case tbl_channels d (c_id channel) of
                        None \<Rightarrow> None | Some old \<Rightarrow> last_scraped_message_id old)
               \<and> last_scraped_at row
                   = (case tbl_channels d (c_id channel) of
                        None \<Rightarrow> None | Some old \<Rightarrow> last_scraped_at old)))
       \<and> (m_id \<circ> b_message) ` set yielded \<subseteq> m_id ` set (tbl_messages d')
       \<and> totalMessages' = totalMessages + length yielded
       \<and> totalChannels' = totalChannels + 1"
proof -
  let ?d1 = "upsertChannel d now channel"
  obtain d2 latest n where run: "scrape_messages ?d1 now yielded None 0 = (d2, latest, n)"
    by (cases "scrape_messages ?d1 now yielded None 0") auto
  note tabs = scrape_messages_tables [OF run]
  have d': "d' = (if truthy latest
                  then updateChannelLastScraped d2 now (c_id channel) (the latest) else d2)"
    and tm: "totalMessages' = totalMessages + n" and tc: "totalChannels' = totalChannels + 1"
    using assms(1,3) run by (simp_all add: scrape_channel_def Let_def)
  have msgs: "tbl_messages d' = tbl_messages d2"
    by (simp add: d' updateChannelLastScraped_def split: option.splits)
  obtain row1 where row1: "tbl_channels ?d1 (c_id channel) = Some row1"
    and row1_cursor: "last_scraped_message_id row1
           = (case tbl_channels d (c_id channel) of
                None \<Rightarrow> None | Some old \<Rightarrow> last_scraped_message_id old)"
    and row1_at: "last_scraped_at row1
           = (case tbl_channels d (c_id channel) of
                None \<Rightarrow> None | Some old \<Rightarrow> last_scraped_at old)"
    by (cases "tbl_channels d (c_id channel)") (simp_all add: upsertChannel_def)
  have row2: "tbl_channels d2 (c_id channel) = Some row1"
    using tabs row1 by simp
  have nonempty: "yielded \<noteq> [] \<longrightarrow>
      getChannelLastScrapedId d' (c_id channel) = Some (Max ((m_id \<circ> b_message) ` set yielded))"
  proof
    assume ne: "yielded \<noteq> []"
    let ?M = "Max ((m_id \<circ> b_message) ` set yielded)"
    have latest: "latest = Some ?M"
      using scrape_messages_latest [OF run ne] by simp
    have "?M \<in> (m_id \<circ> b_message) ` set yielded"
      using ne by (intro Max_in) simp_all
    with assms(2) have "?M \<noteq> []" by auto
    with latest have "truthy latest" by simp
    with latest have "d' = updateChannelLastScraped d2 now (c_id channel) ?M"
      by (simp add: d')
    with row2 \<open>?M \<noteq> []\<close> show "getChannelLastScrapedId d' (c_id channel) = Some ?M"
      by (simp add: updateChannelLastScraped_def getChannelLastScrapedId_def)
  qed
  have empty: "yielded = [] \<longrightarrow>
            (\<exists>row. tbl_channels d' (c_id channel) = Some row
               \<and> last_scraped_message_id row
                   = (case tbl_channels d (c_id channel) of
                        None \<Rightarrow> None | Some old \<Rightarrow> last_scraped_message_id old)
               \<and> last_scraped_at row
                   = (case tbl_channels d (c_id channel) of
                        None \<Rightarrow> None | Some old \<Rightarrow> last_scraped_at old))"
  proof
    assume "yielded = []"
    with run have "latest = None" "d2 = ?d1" by simp_all
    then have "d' = ?d1" by (simp add: d')
    with row1 row1_cursor row1_at show "\<exists>row. tbl_channels d' (c_id channel) = Some row
               \<and> last_scraped_message_id row
                   = (case tbl_channels d (c_id channel) of
                        None \<Rightarrow> None | Some old \<Rightarrow> last_scraped_message_id old)
               \<and> last_scraped_at row
                   = (case tbl_channels d (c_id channel) of
                        None \<Rightarrow> None | Some old \<Rightarrow> last_scraped_at old)"
      by simp
  qed
  have stored: "(m_id \<circ> b_message) ` set yielded \<subseteq> m_id ` set (tbl_messages d')"
    using tabs msgs by auto
  from nonempty empty stored tm tc tabs show ?thesis by simp
qed

theorem scrape_channel_cursor_witness:
  "getChannelLastScrapedId
     (fst (scrape_channel
        (\<lambda>ch after. ([\<lparr>b_message = \<lparr>m_id = ''100'', m_channel_id = ''c1'', m_author_id = ''u1'',
             m_content = Some ''a'', m_clean_content = Some ''a'',
             m_timestamp = ''2024-06-15T10:00:00.000Z'', m_edited_timestamp = None,
             m_message_type = 0, m_reference_id = None, m_thread_id = None,
             m_has_embeds = 0, m_has_attachments = 0, m_reaction_count = 0\<rparr>,
            b_user = \<lparr>u_id = ''u1'', u_username = ''alice'', u_global_name = None,
             u_discriminator = Some ''0'', u_avatar_url = None, u_is_bot = 0\<rparr>\<rparr>,
           \<lparr>b_message = \<lparr>m_id = ''300'', m_channel_id = ''c1'', m_author_id = ''u1'',
             m_content = Some ''c'', m_clean_content = Some ''c'',
             m_timestamp = ''2024-06-15T12:00:00.000Z'', m_edited_timestamp = None,
             m_message_type = 0, m_reference_id = None, m_thread_id = None,
             m_has_embeds = 0, m_has_attachments = 0, m_reaction_count = 0\<rparr>,
            b_user = \<lparr>u_id = ''u1'', u_username = ''alice'', u_global_name = None,
             u_discriminator = Some ''0'', u_avatar_url = None, u_is_bot = 0\<rparr>\<rparr>,
           \<lparr>b_message = \<lparr>m_id = ''200'', m_channel_id = ''c1'', m_author_id = ''u1'',
             m_content = Some ''b'', m_clean_content = Some ''b'',
             m_timestamp = ''2024-06-15T11:00:00.000Z'', m_edited_timestamp = None,
             m_message_type = 0, m_reference_id = None, m_thread_id = None,
             m_has_embeds = 0, m_has_attachments = 0, m_reaction_count = 0\<rparr>,
            b_user = \<lparr>u_id = ''u1'', u_username = ''alice'', u_global_name = None,
             u_discriminator = Some ''0'', u_avatar_url = None, u_is_bot = 0\<rparr>\<rparr>], None))
        True False 5
        \<lparr>c_id = ''c1'', c_guild_id = ''g1'', c_name = ''general'', c_type = 0,
         c_parent_id = None, c_position = Some 0, c_topic = None\<rparr>
        (empty_db, 0, 0)))
     ''c1''
   = Some ''300''"
proof -
  let ?ys = "[\<lparr>b_message = \<lparr>m_id = ''100'', m_channel_id = ''c1'', m_author_id = ''u1'',
             m_content = Some ''a'', m_clean_content = Some ''a'',
             m_timestamp = ''2024-06-15T10:00:00.000Z'', m_edited_timestamp = None,
             m_message_type = 0, m_reference_id = None, m_thread_id = None,
             m_has_embeds = 0, m_has_attachments = 0, m_reaction_count = 0\<rparr>,
            b_user = \<lparr>u_id = ''u1'', u_username = ''alice'', u_global_name = None,
             u_discriminator = Some ''0'', u_avatar_url = None, u_is_bot = 0\<rparr>\<rparr>,
           \<lparr>b_message = \<lparr>m_id = ''300'', m_channel_id = ''c1'', m_author_id = ''u1'',
             m_content = Some ''c'', m_clean_content = Some ''c'',
             m_timestamp = ''2024-06-15T12:00:00.000Z'', m_edited_timestamp = None,
             m_message_type = 0, m_reference_id = None, m_thread_id = None,
             m_has_embeds = 0, m_has_attachments = 0, m_reaction_count = 0\<rparr>,
            b_user = \<lparr>u_id = ''u1'', u_username = ''alice'', u_global_name = None,
             u_discriminator = Some ''0'', u_avatar_url = None, u_is_bot = 0\<rparr>\<rparr>,
           \<lparr>b_message = \<lparr>m_id = ''200'', m_channel_id = ''c1'', m_author_id = ''u1'',
             m_content = Some ''b'', m_clean_content = Some ''b'',
             m_timestamp = ''2024-06-15T11:00:00.000Z'', m_edited_timestamp = None,
             m_message_type = 0, m_reference_id = None, m_thread_id = None,
             m_has_embeds = 0, m_has_attachments = 0, m_reaction_count = 0\<rparr>,
            b_user = \<lparr>u_id = ''u1'', u_username = ''alice'', u_global_name = None,
             u_discriminator = Some ''0'', u_avatar_url = None, u_is_bot = 0\<rparr>\<rparr>]"
  let ?fetch = "\<lambda>(ch :: channel_data) (after :: string option). (?ys, None :: string option)"
  let ?ch = "\<lparr>c_id = ''c1'', c_guild_id = ''g1'', c_name = ''general'', c_type = 0,
         c_parent_id = None, c_position = Some 0, c_topic = None\<rparr>"
  let ?r = "scrape_channel ?fetch True False 5 ?ch (empty_db, 0, 0)"
  have "?r = (fst ?r, fst (snd ?r), snd (snd ?r))" by simp
  from scrape_channel_cursor [of ?fetch ?ch True False empty_db 5 ?ys 0 0, OF _ _ this]
  show ?thesis by simp
qed

lemma scrape_channel_sync_state:
  "tbl_sync_state (fst (scrape_channel fetch isIncremental full now channel st))
     = tbl_sync_state (fst st)"
proof -
  obtain d tm tc where st: "st = (d, tm, tc)" by (cases st) auto
  let ?d1 = "upsertChannel d now channel"
  obtain ys err where f: "fetch channel (startingPoint isIncremental full ?d1 channel) = (ys, err)"
    by (cases "fetch channel (startingPoint isIncremental full ?d1 channel)") auto
  obtain d2 latest n where run: "scrape_messages ?d1 now ys None 0 = (d2, latest, n)"
    by (cases "scrape_messages ?d1 now ys None 0") auto
  have "tbl_sync_state d2 = tbl_sync_state ?d1"
    using scrape_messages_tables [OF run] by simp
  also have "\<dots> = tbl_sync_state d"
    by (simp add: upsertChannel_def split: option.splits)
  finally show ?thesis
    using st f run
    by (simp add: scrape_channel_def Let_def updateChannelLastScraped_def split: option.splits)
qed

lemma fold_scrape_channel_sync_state:
  "tbl_sync_state (fst (fold (scrape_channel fetch isIncremental full now) cs st))
     = tbl_sync_state (fst st)"
  by (induction cs arbitrary: st) (simp_all add: scrape_channel_sync_state)

text \<open>
  A pass that reaches its end marks the row it opened as completed, with the total of
  the channel loop as \<open>messages_processed\<close>.
\<close>

lemma scrapeCommand_finished_completed:
  assumes "\<not> o_dryRun options"
  shows "\<exists>rows row.
           tbl_sync_state (fst (scrapeCommand options now guild (Inr cs) canReadChannel fetch d))
             = rows @ [row]
         \<and> length rows = length (tbl_sync_state d)
         \<and> s_id row = Suc (length (tbl_sync_state d))
         \<and> s_status row = ''completed'' \<and> s_completed_at row = Some now
         \<and> s_error_message row = None
         \<and> snd (scrapeCommand options now guild (Inr cs) canReadChannel fetch d) = Finished"
proof -
  let ?inc = "o_incremental options \<or> (\<not> o_full options \<and> o_channel options = None)"
  let ?mode = "if o_full options then ''full''
               else if ?inc then ''incremental'' else ''channel''"
  let ?d1 = "upsertGuild d now guild"
  let ?id = "Suc (length (tbl_sync_state d))"
  let ?row = "\<lparr>s_id = ?id, s_sync_type = ?mode, s_guild_id = Some (g_id guild),
           s_channel_id = None, s_started_at = now, s_completed_at = None,
           s_messages_processed = 0, s_status = ''in_progress'',
           s_error_message = None\<rparr>"
  let ?d2 = "?d1\<lparr>tbl_sync_state := tbl_sync_state ?d1 @ [?row]\<rparr>"
  have cs: "createSyncState ?d1 now ?mode (g_id guild) None = (?id, ?d2)"
    by (simp add: createSyncState_def upsertGuild_def Let_def)
  let ?chs = "filter canReadChannel (case o_channel options of
                 None \<Rightarrow> cs
               | Some names \<Rightarrow> filter (\<lambda>ch. toLowerCase (c_name ch)
                                  \<in> set (map toLowerCase names)) cs)"
  let ?res = "fold (scrape_channel fetch ?inc (o_full options) now) ?chs (?d2, 0, 0)"
  obtain d3 tm tc where res: "?res = (d3, tm, tc)" by (cases ?res) auto
  have "tbl_sync_state d3 = tbl_sync_state (fst ?res)" by (simp add: res)
  also have "\<dots> = tbl_sync_state d @ [?row]"
    by (simp add: fold_scrape_channel_sync_state upsertGuild_def)
  finally have s3: "tbl_sync_state d3 = tbl_sync_state d @ [?row]" .
  have out: "scrapeCommand options now guild (Inr cs) canReadChannel fetch d
           = (completeSyncState d3 now ?id (int tm), Finished)"
    using assms cs res by (simp add: scrapeCommand_def Let_def)
  show ?thesis
    unfolding out
    by (simp add: completeSyncState_def s3)
qed

text \<open>
  C5. The claim asks that an error after the sync row is opened leaves the row failed,
  with the message. When \<^verbatim>\<open>getTextChannels\<close> throws in a run that is not a dry run, the
  command exits with status 1 and the row it opened is still \<open>in_progress\<close>, with no
  completion time and no error message: the outer \<^verbatim>\<open>catch\<close> never calls
  \<open>failSyncState\<close>.
\<close>

theorem scrapeCommand_error_leaves_in_progress:
  "scrapeCommand (options\<lparr>o_dryRun := False\<rparr>) now guild (Inl e) canReadChannel fetch d
     = (upsertGuild d now guild\<lparr>tbl_sync_state := tbl_sync_state d @
          [\<lparr>s_id = Suc (length (tbl_sync_state d)),
            s_sync_type = (if o_full options then ''full''
                           else if o_incremental options \<or> o_channel options = None
                                then ''incremental'' else ''channel''),
            s_guild_id = Some (g_id guild), s_channel_id = None, s_started_at = now,
            s_completed_at = None, s_messages_processed = 0, s_status = ''in_progress'',
            s_error_message = None\<rparr>]\<rparr>,
        Exit1 e)"
  by (simp add: scrapeCommand_def createSyncState_def upsertGuild_def Let_def)

theorem scrapeCommand_error_leaves_in_progress_witness:
  "map s_status (tbl_sync_state (fst (scrapeCommand
      \<lparr>o_full = False, o_incremental = True, o_channel = None, o_dryRun = False\<rparr> 1000
      \<lparr>g_id = ''g1'', g_name = ''guild'', g_icon_url = None, g_member_count = Some 10\<rparr>
      (Inl ''Missing Access'') (\<lambda>ch. True) (\<lambda>ch after. ([], None)) empty_db)))
     = [''in_progress'']
   \<and> snd (scrapeCommand
      \<lparr>o_full = False, o_incremental = True, o_channel = None, o_dryRun = False\<rparr> 1000
      \<lparr>g_id = ''g1'', g_name = ''guild'', g_icon_url = None, g_member_count = Some 10\<rparr>
      (Inl ''Missing Access'') (\<lambda>ch. True) (\<lambda>ch after. ([], None)) empty_db)
     = Exit1 ''Missing Access''"
  using scrapeCommand_error_leaves_in_progress [of
      "\<lparr>o_full = False, o_incremental = True, o_channel = None, o_dryRun = False\<rparr>" 1000
      "\<lparr>g_id = ''g1'', g_name = ''guild'', g_icon_url = None, g_member_count = Some 10\<rparr>"
      "''Missing Access''" "\<lambda>ch. True" "\<lambda>ch after. ([], None)" empty_db]
  by (simp add: empty_db_def)

section \<open>Properties of the pagination\<close>

text \<open>
  C4. The claim asks that with \<^verbatim>\<open>after\<close> set every request after the first fetches newer
  messages, so that every yielded id is after the cursor. On the channel with the ids
  101 to 220 and \<^verbatim>\<open>after = '120'\<close>, the first request carries \<^verbatim>\<open>after: '120'\<close> and returns
  the hundred messages 121 to 220; the second request carries \<^verbatim>\<open>before: '121'\<close> and no
  \<^verbatim>\<open>after\<close>, and returns the messages 101 to 120, which are yielded although none of
  them is newer than the cursor: \<^verbatim>\<open>lastId\<close>, once set, takes precedence over \<^verbatim>\<open>after\<close>.
\<close>

theorem fetchMessages_incremental_pages_backwards:
  "fetchMessages 5 (upstream_fetch channel_101_220) None (Some ''120'') None
     = Some ([\<lparr>fo_limit = 100, fo_before = None, fo_after = Some ''120''\<rparr>,
              \<lparr>fo_limit = 100, fo_before = Some ''121'', fo_after = None\<rparr>],
             channel_101_220, None)
   \<and> map dm_id (drop 100 channel_101_220)
     = [''120'', ''119'', ''118'', ''117'', ''116'', ''115'', ''114'', ''113'', ''112'', ''111'',
        ''110'', ''109'', ''108'', ''107'', ''106'', ''105'', ''104'', ''103'', ''102'', ''101'']
   \<and> \<not> (''120'' < dm_id (channel_101_220 ! 100))"
  by code_simp

text \<open>
  Without \<^verbatim>\<open>after\<close> the same channel is paged from the newest message backwards, each
  request after the first carrying the oldest id of the page before it.
\<close>

lemma fetchMessages_cold_pages_backwards:
  "fetchMessages 5 (upstream_fetch channel_101_220) None None None
     = Some ([\<lparr>fo_limit = 100, fo_before = None, fo_after = None\<rparr>,
              \<lparr>fo_limit = 100, fo_before = Some ''121'', fo_after = None\<rparr>],
             channel_101_220, None)"
  by code_simp

section \<open>Properties of the retry driver\<close>

lemma processWithRetry_loop_all_retryable:
  assumes "\<forall>k. isRetryable (errs k)" and "1 \<le> a" and "a \<le> maxRetries"
  shows "processWithRetry_loop (\<lambda>k. Inl (errs k)) random maxRetries baseDelay
           backoffMultiplier maxDelay a
         = (Threw (errs maxRetries),
            concat (map (\<lambda>i. [Request i,
                               Sleep (totalDelay baseDelay backoffMultiplier maxDelay
                                        (random i) i)]) [a..<maxRetries])
            @ [Request maxRetries])"
  using assms(2,3)
proof (induction "maxRetries - a" arbitrary: a)
  case 0
  then have "a = maxRetries" by simp
  then show ?case
    by (subst processWithRetry_loop.simps) simp
next
  case (Suc n)
  then have lt: "a < maxRetries" and n: "n = maxRetries - Suc a" by simp_all
  note IH = Suc.hyps(1) [OF n]
  have up: "[a..<maxRetries] = a # [Suc a..<maxRetries]"
    using lt by (simp add: upt_conv_Cons)
  show ?case
    using lt assms(1) IH
    by (subst processWithRetry_loop.simps) (simp add: up)
qed

lemma totalDelay_bounds:
  assumes "0 \<le> rnd" and "rnd < 1" and "0 \<le> baseDelay" and "0 \<le> backoffMultiplier"
    and "0 \<le> maxDelay"
  shows "min (baseDelay * backoffMultiplier ^ (i - 1)) maxDelay - 1 / 2
           \<le> real_of_int (totalDelay baseDelay backoffMultiplier maxDelay rnd i)"
    and "real_of_int (totalDelay baseDelay backoffMultiplier maxDelay rnd i)
           \<le> 11 / 10 * min (baseDelay * backoffMultiplier ^ (i - 1)) maxDelay + 1 / 2"
proof -
  let ?d = "min (baseDelay * backoffMultiplier ^ (i - 1)) maxDelay"
  let ?j = "?d * (1 / 10) * rnd"
  have d: "0 \<le> ?d" using assms(3,4,5) by simp
  have j0: "0 \<le> ?j" using d assms(1) by simp
  have "?d * rnd \<le> ?d * 1" using d assms(2) by (intro mult_left_mono) simp_all
  then have j1: "?j \<le> ?d / 10" by simp
  have t: "totalDelay baseDelay backoffMultiplier maxDelay rnd i = \<lfloor>?d + ?j + 1 / 2\<rfloor>"
    by (simp add: totalDelay_def Math_round_def Let_def)
  have "real_of_int \<lfloor>?d + ?j + 1 / 2\<rfloor> \<le> ?d + ?j + 1 / 2" by (rule of_int_floor_le)
  with j1 show "real_of_int (totalDelay baseDelay backoffMultiplier maxDelay rnd i)
           \<le> 11 / 10 * ?d + 1 / 2"
    unfolding t by linarith
  have "?d + ?j + 1 / 2 < real_of_int \<lfloor>?d + ?j + 1 / 2\<rfloor> + 1" by linarith
  with j0 show "?d - 1 / 2 \<le> real_of_int (totalDelay baseDelay backoffMultiplier maxDelay rnd i)"
    unfolding t by linarith
qed

text \<open>
  C3, as amended. When every call fails with status 429: the driver issues exactly
  \<open>maxRetries\<close> requests, one per attempt, with one sleep between two attempts; for
  \<open>maxRetries \<ge> 1\<close> the error of the last attempt is thrown to the caller (for
  \<open>maxRetries = 0\<close> no request is made and nothing is thrown). The sleep after attempt
  \<open>i\<close> is \<open>Math.round(d + j)\<close> with \<open>d = min(B \<sqdot> M^(i-1), 30000)\<close> and
  \<open>j = 0.1 \<sqdot> d \<sqdot> r\<close>, \<open>r\<close> in \<open>[0, 1)\<close>; for non-negative \<open>B\<close> and \<open>M\<close> it lies
  in \<open>[d - 1/2, 1.1 \<sqdot> d + 1/2]\<close>.
\<close>

theorem processWithRetry_all_429:
  assumes "\<forall>k. err_status (errs k) = Some 429"
    and "\<forall>k. 0 \<le> random k \<and> random k < 1"
    and "0 \<le> baseDelay" and "0 \<le> backoffMultiplier"
  shows "processWithRetry (\<lambda>k. Inl (errs k)) random
           \<lparr>rt_maxRetries = maxRetries, rt_baseDelay = baseDelay,
            rt_backoffMultiplier = backoffMultiplier, rt_maxDelay = None\<rparr>
         = ((if maxRetries = 0 then ReturnedUndefined else Threw (errs maxRetries)),
            concat (map (\<lambda>i. [Request i,
                               Sleep (totalDelay baseDelay backoffMultiplier 30000
                                        (random i) i)]) [1..<maxRetries])
            @ (if maxRetries = 0 then [] else [Request maxRetries]))
       \<and> length (filter is_Request (snd (processWithRetry (\<lambda>k. Inl (errs k)) random
           \<lparr>rt_maxRetries = maxRetries, rt_baseDelay = baseDelay,
            rt_backoffMultiplier = backoffMultiplier, rt_maxDelay = None\<rparr>))) = maxRetries
       \<and> (\<forall>i. min (baseDelay * backoffMultiplier ^ (i - 1)) 30000 - 1 / 2
                  \<le> real_of_int (totalDelay baseDelay backoffMultiplier 30000 (random i) i)
              \<and> real_of_int (totalDelay baseDelay backoffMultiplier 30000 (random i) i)
                  \<le> 11 / 10 * min (baseDelay * backoffMultiplier ^ (i - 1)) 30000 + 1 / 2)"
proof -
  let ?run = "processWithRetry (\<lambda>k. Inl (errs k)) random
           \<lparr>rt_maxRetries = maxRetries, rt_baseDelay = baseDelay,
            rt_backoffMultiplier = backoffMultiplier, rt_maxDelay = None\<rparr>"
  let ?pairs = "concat (map (\<lambda>i. [Request i,
                               Sleep (totalDelay baseDelay backoffMultiplier 30000
                                        (random i) i)]) [1..<maxRetries])"
  have retry: "\<forall>k. isRetryable (errs k)"
    using assms(1) by (simp add: isRetryable_def)
  have run: "?run = ((if maxRetries = 0 then ReturnedUndefined else Threw (errs maxRetries)),
            ?pairs @ (if maxRetries = 0 then [] else [Request maxRetries]))"
  proof (cases "maxRetries = 0")
    case True
    then show ?thesis
      by (simp add: processWithRetry_def processWithRetry_loop.simps)
  next
    case False
    then have "1 \<le> maxRetries" by simp
    from processWithRetry_loop_all_retryable [OF retry _ this, where random = random
        and baseDelay = baseDelay and backoffMultiplier = backoffMultiplier
        and maxDelay = 30000] False
    show ?thesis by (simp add: processWithRetry_def)
  qed
  have cnt: "\<And>a. length (filter is_Request (concat (map (\<lambda>i. [Request i,
                               Sleep (totalDelay baseDelay backoffMultiplier 30000
                                        (random i) i)]) [a..<maxRetries]))) = maxRetries - a"
  proof -
    fix a show "length (filter is_Request (concat (map (\<lambda>i. [Request i,
                               Sleep (totalDelay baseDelay backoffMultiplier 30000
                                        (random i) i)]) [a..<maxRetries]))) = maxRetries - a"
    proof (induction "maxRetries - a" arbitrary: a)
      case 0
      then show ?case by simp
    next
      case (Suc n)
      then have "a < maxRetries" "n = maxRetries - Suc a" by simp_all
      with Suc.hyps(1) [of "Suc a"] show ?case by (simp add: upt_conv_Cons)
    qed
  qed
  have count: "length (filter is_Request (snd ?run)) = maxRetries"
    unfolding run using cnt [of 1] by (cases "maxRetries = 0") simp_all
  have bounds: "\<forall>i. min (baseDelay * backoffMultiplier ^ (i - 1)) 30000 - 1 / 2
                  \<le> real_of_int (totalDelay baseDelay backoffMultiplier 30000 (random i) i)
              \<and> real_of_int (totalDelay baseDelay backoffMultiplier 30000 (random i) i)
                  \<le> 11 / 10 * min (baseDelay * backoffMultiplier ^ (i - 1)) 30000 + 1 / 2"
    using totalDelay_bounds [of "random _" baseDelay backoffMultiplier 30000] assms(2,3,4)
    by simp
  from run count bounds show ?thesis by blast
qed

theorem processWithRetry_all_429_witness:
  "processWithRetry (\<lambda>k. Inl \<lparr>err_status = Some 429, err_code = None\<rparr> :: js_error + unit) (\<lambda>k. 1 / 2)
     \<lparr>rt_maxRetries = 3, rt_baseDelay = 1000, rt_backoffMultiplier = 2, rt_maxDelay = None\<rparr>
   = (Threw \<lparr>err_status = Some 429, err_code = None\<rparr>,
      [Request 1, Sleep 1050, Request 2, Sleep 2100, Request 3])"
  using processWithRetry_all_429 [where 'a = unit and 'b = unit
      and errs = "\<lambda>k. \<lparr>err_status = Some 429, err_code = None\<rparr>"
      and random = "\<lambda>k. 1 / 2" and baseDelay = 1000 and backoffMultiplier = 2
      and maxRetries = 3]
  by (simp add: totalDelay_def Math_round_def upt_rec numeral_2_eq_2)

text \<open>
  The claim as stated fails on the interval: with \<open>B = 6\<close>, \<open>M = 1\<close> and
  \<^verbatim>\<open>Math.random()\<close> returning 0.9, the delay before the second attempt is
  \<open>Math.round(6 + 0.54) = 7\<close> milliseconds, above \<open>1.1 \<sqdot> 6 = 6.6\<close>.
\<close>

theorem processWithRetry_delay_counterexample:
  "processWithRetry (\<lambda>k. Inl \<lparr>err_status = Some 429, err_code = None\<rparr> :: js_error + unit) (\<lambda>k. 9 / 10)
     \<lparr>rt_maxRetries = 2, rt_baseDelay = 6, rt_backoffMultiplier = 1, rt_maxDelay = None\<rparr>
   = (Threw \<lparr>err_status = Some 429, err_code = None\<rparr>, [Request 1, Sleep 7, Request 2])
   \<and> \<not> (real_of_int 7 \<le> 11 / 10 * min (6 * 1 ^ (1 - 1)) 30000)"
  by (simp add: processWithRetry_def processWithRetry_loop.simps totalDelay_def Math_round_def
      isRetryable_def)

section \<open>Properties of the response validation\<close>

lemma ball_set_Cons: "(\<forall>p \<in> set (x # xs). P p) \<longleftrightarrow> P x \<and> (\<forall>p \<in> set xs. P p)"
  by simp

lemma ball_set_Nil: "(\<forall>p \<in> set []. P p) \<longleftrightarrow> True"
  by simp

lemma validate_typed_string: "validate (typed ''string'') v \<longleftrightarrow> is_JStr v"
  by (cases v) (simp_all add: typed_def is_JStr_def)

lemma validate_array_of_strings:
  "validate (array_of (typed ''string'')) v \<longleftrightarrow> (\<exists>xs. v = JArr xs \<and> list_all is_JStr xs)"
  by (cases v) (simp_all add: array_of_def validate_typed_string list_all_iff)

lemma validate_string_enum:
  "validate (string_enum vs) v \<longleftrightarrow> (\<exists>s. v = JStr s \<and> s \<in> set vs)"
  by (cases v) (auto simp: string_enum_def)

lemma validate_categorizeItemSchema:
  "validate categorizeItemSchema item \<longleftrightarrow> categorization_shape item"
proof (cases item)
  case (JObj members)
  have "validate categorizeItemSchema (JObj members) \<longleftrightarrow>
      (case map_of members ''id'' of None \<Rightarrow> True | Some x \<Rightarrow> is_JStr x)
      \<and> (case map_of members ''primary_topic'' of None \<Rightarrow> True | Some x \<Rightarrow> is_JStr x)
      \<and> (case map_of members ''secondary_topics'' of None \<Rightarrow> True
          | Some x \<Rightarrow> (\<exists>xs. x = JArr xs \<and> list_all is_JStr xs))
      \<and> (case map_of members ''sentiment'' of None \<Rightarrow> True
          | Some x \<Rightarrow> (\<exists>s. x = JStr s
                \<and> s \<in> set [''positive'', ''neutral'', ''negative'', ''mixed'']))
      \<and> (case map_of members ''urgency'' of None \<Rightarrow> True
          | Some x \<Rightarrow> (\<exists>s. x = JStr s \<and> s \<in> set [''high'', ''medium'', ''low'']))
      \<and> (case map_of members ''marketing_relevance'' of None \<Rightarrow> True
          | Some x \<Rightarrow> (\<exists>s. x = JStr s \<and> s \<in> set [''high'', ''medium'', ''low'']))
      \<and> map_of members ''id'' \<noteq> None \<and> map_of members ''primary_topic'' \<noteq> None"
    unfolding categorizeItemSchema_def object_schema_def
    by (simp add: validate_typed_string validate_array_of_strings validate_string_enum
        ball_set_Cons ball_set_Nil del: set_simps cong: option.case_cong)
  also have "\<dots> \<longleftrightarrow> categorization_shape (JObj members)"
    unfolding categorization_shape_def has_string_def absent_or_one_of_def
      absent_or_strings_def is_JStr_def
    by (auto split: option.splits json.splits)
  finally show ?thesis using JObj by simp
qed (simp_all add: categorizeItemSchema_def object_schema_def categorization_shape_def)

text \<open>
  C9, as amended. The categorize validator accepts a parsed response exactly when it is
  an object whose \<open>categorizations\<close> member is an array of items of the shape above: an
  item without \<open>id\<close> or without \<open>primary_topic\<close> is rejected, while \<open>sentiment\<close>,
  \<open>urgency\<close>, \<open>marketing_relevance\<close> and \<open>secondary_topics\<close> may be missing and are
  checked against their enumeration or type only when present. Every other response
  raises the invalid-response error.
\<close>

theorem validateResponse_categorize:
  "(validateResponse ''categorize'' response = Inr response \<longleftrightarrow>
      (\<exists>members items. response = JObj members
          \<and> map_of members ''categorizations'' = Some (JArr items)
          \<and> (\<forall>item \<in> set items. categorization_shape item)))
   \<and> (validateResponse ''categorize'' response \<noteq> Inr response \<longrightarrow>
         validateResponse ''categorize'' response = Inl (InvalidAIResponse ''categorize''))
   \<and> (\<forall>members. categorization_shape (JObj members) \<longrightarrow>
         map_of members ''id'' \<noteq> None \<and> map_of members ''primary_topic'' \<noteq> None)"
proof -
  have v: "validators ''categorize'' = Some categorizeResponseSchema"
    by (simp add: validators_def)
  have arr: "\<And>x. validate (array_of categorizeItemSchema) x \<longleftrightarrow>
      (\<exists>items. x = JArr items \<and> (\<forall>item \<in> set items. categorization_shape item))"
  proof -
    fix x show "validate (array_of categorizeItemSchema) x \<longleftrightarrow>
      (\<exists>items. x = JArr items \<and> (\<forall>item \<in> set items. categorization_shape item))"
      by (cases x) (simp_all add: array_of_def validate_categorizeItemSchema)
  qed
  have top: "validate categorizeResponseSchema response \<longleftrightarrow>
      (\<exists>members items. response = JObj members
          \<and> map_of members ''categorizations'' = Some (JArr items)
          \<and> (\<forall>item \<in> set items. categorization_shape item))"
  proof (cases response)
    case (JObj members)
    have "validate categorizeResponseSchema (JObj members) \<longleftrightarrow>
        (case map_of members ''categorizations'' of None \<Rightarrow> True
         | Some x \<Rightarrow> validate (array_of categorizeItemSchema) x)
        \<and> map_of members ''categorizations'' \<noteq> None"
      unfolding categorizeResponseSchema_def object_schema_def
      by (simp cong: option.case_cong)
    also have "\<dots> \<longleftrightarrow> (\<exists>items. map_of members ''categorizations'' = Some (JArr items)
          \<and> (\<forall>item \<in> set items. categorization_shape item))"
      by (cases "map_of members ''categorizations''") (simp_all add: arr)
    finally show ?thesis using JObj by simp
  qed (simp_all add: categorizeResponseSchema_def object_schema_def)
  have shape: "\<forall>members. categorization_shape (JObj members) \<longrightarrow>
         map_of members ''id'' \<noteq> None \<and> map_of members ''primary_topic'' \<noteq> None"
    by (auto simp: categorization_shape_def has_string_def split: option.splits)
  show ?thesis
    using top shape by (simp add: validateResponse_def v)
qed

theorem validateResponse_categorize_witness:
  "validateResponse ''categorize''
     (JObj [(''categorizations'', JArr [JObj
        [(''id'', JStr ''1''), (''primary_topic'', JStr ''pricing''),
         (''secondary_topics'', JArr [JStr ''fees'']), (''sentiment'', JStr ''positive''),
         (''urgency'', JStr ''low''), (''marketing_relevance'', JStr ''high'')]])])
   = Inr (JObj [(''categorizations'', JArr [JObj
        [(''id'', JStr ''1''), (''primary_topic'', JStr ''pricing''),
         (''secondary_topics'', JArr [JStr ''fees'']), (''sentiment'', JStr ''positive''),
         (''urgency'', JStr ''low''), (''marketing_relevance'', JStr ''high'')]])])
   \<and> validateResponse ''categorize''
     (JObj [(''categorizations'', JArr [JObj
        [(''id'', JStr ''1''), (''sentiment'', JStr ''positive''),
         (''urgency'', JStr ''low''), (''marketing_relevance'', JStr ''high'')]])])
   = Inl (InvalidAIResponse ''categorize'')"
  using validateResponse_categorize [of "JObj [(''categorizations'', JArr [JObj
        [(''id'', JStr ''1''), (''primary_topic'', JStr ''pricing''),
         (''secondary_topics'', JArr [JStr ''fees'']), (''sentiment'', JStr ''positive''),
         (''urgency'', JStr ''low''), (''marketing_relevance'', JStr ''high'')]])]"]
    validateResponse_categorize [of "JObj [(''categorizations'', JArr [JObj
        [(''id'', JStr ''1''), (''sentiment'', JStr ''positive''),
         (''urgency'', JStr ''low''), (''marketing_relevance'', JStr ''high'')]])]"]
  by (simp add: categorization_shape_def has_string_def absent_or_one_of_def
      absent_or_strings_def is_JStr_def)

text \<open>
  The claim as stated fails: a categorization with only \<open>id\<close> and \<open>primary_topic\<close>,
  without \<open>sentiment\<close>, \<open>urgency\<close> and \<open>marketing_relevance\<close>, is accepted.
\<close>

theorem validateResponse_categorize_counterexample:
  "validateResponse ''categorize''
     (JObj [(''categorizations'', JArr [JObj
        [(''id'', JStr ''1''), (''primary_topic'', JStr ''pricing'')]])])
   = Inr (JObj [(''categorizations'', JArr [JObj
        [(''id'', JStr ''1''), (''primary_topic'', JStr ''pricing'')]])])
   \<and> map_of [(''id'', JStr ''1''), (''primary_topic'', JStr ''pricing'')] ''sentiment'' = None
   \<and> map_of [(''id'', JStr ''1''), (''primary_topic'', JStr ''pricing'')] ''urgency'' = None
   \<and> map_of [(''id'', JStr ''1''), (''primary_topic'', JStr ''pricing'')] ''marketing_relevance''
       = None"
  by (simp add: validateResponse_def validators_def categorizeResponseSchema_def
      categorizeItemSchema_def object_schema_def array_of_def typed_def string_enum_def)

section \<open>Properties of the anonymizer\<close>

lemma digit_inj:
  assumes "a < 10" and "b < 10" and "''0123456789'' ! a = ''0123456789'' ! b"
  shows "a = b"
proof -
  have "distinct ''0123456789''" by simp
  moreover have "a < length ''0123456789''" "b < length ''0123456789''"
    using assms(1,2) by simp_all
  ultimately show ?thesis using assms(3) by (simp only: nth_eq_iff_index_eq)
qed

lemma decimal_not_Nil: "decimal n \<noteq> []"
  by (subst decimal.simps) simp

lemma decimal_digits: "set (decimal n) \<subseteq> set ''0123456789''"
proof (induction n rule: decimal.induct)
  case (1 n)
  show ?case
  proof (cases "n < 10")
    case True
    then have "''0123456789'' ! n \<in> set ''0123456789''"
      by (intro nth_mem) simp
    with True show ?thesis by (subst decimal.simps) simp
  next
    case False
    have "n mod 10 < length ''0123456789''" by simp
    then have "''0123456789'' ! (n mod 10) \<in> set ''0123456789''"
      by (rule nth_mem)
    with False 1 show ?thesis by (subst decimal.simps) simp
  qed
qed

lemma decimal_inj: "decimal n = decimal m \<Longrightarrow> n = m"
proof (induction n arbitrary: m rule: decimal.induct)
  case (1 n)
  show ?case
  proof (cases "n < 10")
    case True
    then have n: "decimal n = [''0123456789'' ! n]" by (subst decimal.simps) simp
    have m10: "m < 10"
    proof (rule ccontr)
      assume "\<not> m < 10"
      then have "decimal m = decimal (m div 10) @ [''0123456789'' ! (m mod 10)]"
        by (subst decimal.simps) simp
      with n "1.prems" have "decimal (m div 10) = []" by simp
      then show False by (simp add: decimal_not_Nil)
    qed
    then have "decimal m = [''0123456789'' ! m]" by (subst decimal.simps) simp
    with n "1.prems" have "''0123456789'' ! n = ''0123456789'' ! m" by simp
    with True m10 show ?thesis by (rule digit_inj)
  next
    case False
    then have n: "decimal n = decimal (n div 10) @ [''0123456789'' ! (n mod 10)]"
      by (subst decimal.simps) simp
    have m10: "\<not> m < 10"
    proof
      assume "m < 10"
      then have "decimal m = [''0123456789'' ! m]" by (subst decimal.simps) simp
      with n "1.prems" have "decimal (n div 10) = []" by simp
      then show False by (simp add: decimal_not_Nil)
    qed
    then have m: "decimal m = decimal (m div 10) @ [''0123456789'' ! (m mod 10)]"
      by (subst decimal.simps) simp
    from n m "1.prems" have eq: "decimal (n div 10) = decimal (m div 10)"
      and d: "''0123456789'' ! (n mod 10) = ''0123456789'' ! (m mod 10)" by simp_all
    from "1.IH" [OF False eq] have "n div 10 = m div 10" .
    moreover have "n mod 10 = m mod 10"
      by (rule digit_inj [OF _ _ d]) simp_all
    ultimately show ?thesis by (metis div_mult_mod_eq)
  qed
qed

lemma alias_of_inj:
  assumes "1 \<le> i" and "1 \<le> j" and "alias_of i = alias_of j"
  shows "i = j"
proof -
  let ?S = "\<lambda>k. if k > 26 then decimal ((k - 1) div 26) else []"
  from assms(3) have l: "char_of (65 + (i - 1) mod 26) = (char_of (65 + (j - 1) mod 26) :: char)"
    and s: "?S i = ?S j"
    by (simp_all add: alias_of_def Let_def)
  from l have "of_char (char_of (65 + (i - 1) mod 26) :: char)
      = (of_char (char_of (65 + (j - 1) mod 26) :: char) :: nat)"
    by (rule arg_cong)
  then have "(65 + (i - 1) mod 26) mod 256 = (65 + (j - 1) mod 26) mod 256"
    by (simp only: of_char_of)
  moreover have "65 + (i - 1) mod 26 < 256" "65 + (j - 1) mod 26 < 256"
    by (simp_all add: less_le_trans [OF mod_less_divisor] add.commute) 
  ultimately have m: "(i - 1) mod 26 = (j - 1) mod 26" by simp
  have d: "(i - 1) div 26 = (j - 1) div 26"
  proof (cases "i > 26")
    case True
    with s have "j > 26" by (auto simp: decimal_not_Nil split: if_splits)
    with True s show ?thesis by (simp add: decimal_inj)
  next
    case False
    with s have "\<not> j > 26"
      using decimal_not_Nil [of "(j - 1) div 26"] by (auto split: if_splits)
    with False show ?thesis by simp
  qed
  from m d have "i - 1 = j - 1" by (metis div_mult_mod_eq)
  with assms(1,2) show ?thesis by simp
qed

lemma alias_of_not_Unknown: "alias_of i \<noteq> ''User_Unknown''"
proof
  assume "alias_of i = ''User_Unknown''"
  then have s: "(if i > 26 then decimal ((i - 1) div 26) else []) = ''nknown''"
    by (simp add: alias_of_def Let_def)
  then have "i > 26" by (auto split: if_splits)
  with s have "decimal ((i - 1) div 26) = ''nknown''" by simp
  then have "CHR ''n'' \<in> set (decimal ((i - 1) div 26))" by simp
  with decimal_digits [of "(i - 1) div 26"] show False by auto
qed

lemma anonymize_prefix: "prefix (an_mapping st) (an_mapping (snd (anonymize st u)))"
  by (simp add: anonymize_def Let_def split: option.splits)

lemma map_of_prefix: "prefix xs ys \<Longrightarrow> map_of xs k = Some v \<Longrightarrow> map_of ys k = Some v"
  by (auto simp: prefix_def)

lemma anonymize_lookup:
  "u \<noteq> [] \<Longrightarrow> map_of (an_mapping (snd (anonymize st u))) u = Some (fst (anonymize st u))"
  by (simp add: anonymize_def Let_def map_add_def split: option.splits)

lemma anonymize_stable:
  assumes "prefix (an_mapping (snd (anonymize st u))) (an_mapping stF)"
  shows "anonymize stF u = (fst (anonymize st u), stF)"
proof (cases "u = []")
  case True
  then show ?thesis by (simp add: anonymize_def)
next
  case False
  from map_of_prefix [OF assms anonymize_lookup [OF False]]
  have "map_of (an_mapping stF) u = Some (fst (anonymize st u))" .
  with False show ?thesis by (simp add: anonymize_def [of stF])
qed

lemma feed_Nil [simp]: "feed [] st = st"
  by (simp add: feed_def)

lemma feed_Cons [simp]: "feed (u # us) st = feed us (snd (anonymize st u))"
  by (simp add: feed_def)

lemma feed_append: "feed (xs @ ys) st = feed ys (feed xs st)"
  by (simp add: feed_def)

lemma feed_prefix: "prefix (an_mapping st) (an_mapping (feed names st))"
proof (induction names arbitrary: st)
  case Nil
  then show ?case by simp
next
  case (Cons u us)
  have "prefix (an_mapping st) (an_mapping (snd (anonymize st u)))"
    by (rule anonymize_prefix)
  moreover have "prefix (an_mapping (snd (anonymize st u)))
                   (an_mapping (feed us (snd (anonymize st u))))"
    by (rule Cons)
  ultimately have "prefix (an_mapping st) (an_mapping (feed us (snd (anonymize st u))))"
    by (rule prefix_order.trans)
  then show ?case by simp
qed

lemma tracks_anonymize: "tracks (\<lambda>st. anonymize st u) [u]"
  by (simp add: tracks_def anonymize_stable)

lemma tracks_return: "tracks (\<lambda>st. (r, st)) []"
  by (simp add: tracks_def)

lemma tracks_bind:
  assumes f: "tracks f ns" and g: "\<And>r. tracks (g r) ms"
  shows "tracks (\<lambda>st. case f st of (r, s1) \<Rightarrow> g r s1) (ns @ ms)"
  unfolding tracks_def
proof (intro allI conjI impI)
  fix st
  show "snd (case f st of (r, s1) \<Rightarrow> g r s1) = feed (ns @ ms) st"
    using f g by (simp add: tracks_def case_prod_beta feed_append)
next
  fix st stF :: anonymizer_state
  let ?r = "fst (f st)" and ?s1 = "snd (f st)"
  assume "prefix (an_mapping (snd (case f st of (r, s1) \<Rightarrow> g r s1))) (an_mapping stF)"
  then have p2: "prefix (an_mapping (snd (g ?r ?s1))) (an_mapping stF)"
    by (simp add: case_prod_beta)
  have "snd (g ?r ?s1) = feed ms ?s1" using g by (simp add: tracks_def)
  then have "prefix (an_mapping ?s1) (an_mapping (snd (g ?r ?s1)))"
    by (simp add: feed_prefix)
  from this p2 have "prefix (an_mapping ?s1) (an_mapping stF)"
    by (rule prefix_order.trans)
  with f have fF: "f stF = (?r, stF)" by (simp add: tracks_def)
  from g p2 have "g ?r stF = (fst (g ?r ?s1), stF)" by (simp add: tracks_def)
  with fF show "(case f stF of (r, s1) \<Rightarrow> g r s1) = (fst (case f st of (r, s1) \<Rightarrow> g r s1), stF)"
    by (simp add: case_prod_beta)
qed

lemma tracks_map:
  assumes "tracks f ns"
  shows "tracks (\<lambda>st. case f st of (r, s1) \<Rightarrow> (h r, s1)) ns"
  using tracks_bind [OF assms, of "\<lambda>r st. (h r, st)" "[]"] by (simp add: tracks_return)

lemma tracks_anonymizeMentions: "tracks (\<lambda>st. anonymizeMentions st s) (mention_names s)"
proof (induction s rule: mention_names.induct)
  case 1
  show ?case by (simp add: tracks_return)
next
  case (2 c cs)
  show ?case
  proof (cases "c = CHR ''@'' \<and> takeWhile is_word_char cs \<noteq> []")
    case True
    let ?w = "takeWhile is_word_char cs" and ?rest = "dropWhile is_word_char cs"
    have rest: "tracks (\<lambda>st. anonymizeMentions st ?rest) (mention_names ?rest)"
      using "2.IH"(1) True by simp
    have "tracks (\<lambda>st. case anonymize st ?w of
                         (alias, st1) \<Rightarrow>
                           (case anonymizeMentions st1 ?rest of
                              (r, st2) \<Rightarrow> (CHR ''@'' # alias @ r, st2)))
            ([?w] @ mention_names ?rest)"
      by (rule tracks_bind [OF tracks_anonymize]) (rule tracks_map [OF rest])
    with True show ?thesis by simp
  next
    case False
    have rest: "tracks (\<lambda>st. anonymizeMentions st cs) (mention_names cs)"
      using "2.IH"(2) False by simp
    have "tracks (\<lambda>st. case anonymizeMentions st cs of (r, st1) \<Rightarrow> (c # r, st1))
            (mention_names cs)"
      by (rule tracks_map [OF rest])
    with False show ?thesis by auto
  qed
qed

lemma tracks_anonymizeAuthor: "tracks (\<lambda>st. anonymizeAuthor st a) (author_names a)"
proof (cases "truthy (au_global_name a)")
  case True
  have "tracks (\<lambda>st. case anonymize st (au_username a) of
                       (username, st1) \<Rightarrow>
                         (case anonymize st1 (the (au_global_name a)) of
                            (global_name, st2) \<Rightarrow>
                              (a\<lparr>au_username := username,
                                 au_global_name := Some global_name\<rparr>, st2)))
          ([au_username a] @ [the (au_global_name a)])"
    by (rule tracks_bind [OF tracks_anonymize]) (rule tracks_map [OF tracks_anonymize])
  with True show ?thesis by (simp add: anonymizeAuthor_def author_names_def)
next
  case False
  have "tracks (\<lambda>st. case anonymize st (au_username a) of
                       (username, st1) \<Rightarrow>
                         (a\<lparr>au_username := username, au_global_name := None\<rparr>, st1))
          [au_username a]"
    by (rule tracks_map [OF tracks_anonymize])
  with False show ?thesis by (simp add: anonymizeAuthor_def author_names_def)
qed

lemma tracks_anonymizeText:
  "tracks (\<lambda>st. anonymizeText anonymizeContent st text) (text_names anonymizeContent text)"
proof (cases "anonymizeContent \<and> truthy text")
  case True
  have "tracks (\<lambda>st. case anonymizeMentions st (the text) of (t, st1) \<Rightarrow> (Some t, st1))
          (mention_names (the text))"
    by (rule tracks_map [OF tracks_anonymizeMentions])
  with True show ?thesis by (simp add: anonymizeText_def text_names_def)
next
  case False
  then show ?thesis
    using tracks_return [of "text"] by (auto simp: anonymizeText_def text_names_def)
qed

lemma tracks_anonymizeMessage:
  "tracks (\<lambda>st. anonymizeMessage anonymizeContent st msg)
     (message_names anonymizeContent msg)"
proof -
  have A: "tracks (\<lambda>st. case am_author msg of
                          None \<Rightarrow> (None, st)
                        | Some a \<Rightarrow> (case anonymizeAuthor st a of (a1, s) \<Rightarrow> (Some a1, s)))
             (case am_author msg of None \<Rightarrow> [] | Some a \<Rightarrow> author_names a)"
  proof (cases "am_author msg")
    case None
    then show ?thesis by (simp add: tracks_return)
  next
    case (Some a)
    have "tracks (\<lambda>st. case anonymizeAuthor st a of (a1, s) \<Rightarrow> (Some a1, s)) (author_names a)"
      by (rule tracks_map [OF tracks_anonymizeAuthor])
    with Some show ?thesis by simp
  qed
  show ?thesis
    unfolding anonymizeMessage_def message_names_def
    by (rule tracks_bind [OF A], rule tracks_bind [OF tracks_anonymizeText],
        rule tracks_map [OF tracks_anonymizeText])
qed

lemma names_handed_Cons:
  "names_handed anonymizeContent (msg # rest)
     = message_names anonymizeContent msg @ names_handed anonymizeContent rest"
  by (simp add: names_handed_def)

lemma tracks_anonymizeMessages_loop:
  "tracks (\<lambda>st. anonymizeMessages_loop anonymizeContent st msgs)
     (names_handed anonymizeContent msgs)"
proof (induction msgs)
  case Nil
  show ?case by (simp add: names_handed_def tracks_return)
next
  case (Cons msg rest)
  have "tracks (\<lambda>st. case anonymizeMessage anonymizeContent st msg of
                       (anonymized, st1) \<Rightarrow>
                         (case anonymizeMessages_loop anonymizeContent st1 rest of
                            (out, st2) \<Rightarrow> (anonymized # out, st2)))
          (message_names anonymizeContent msg @ names_handed anonymizeContent rest)"
    by (rule tracks_bind [OF tracks_anonymizeMessage]) (rule tracks_map [OF Cons])
  then show ?case by (simp add: names_handed_Cons)
qed

lemma anonymizeMessages_loop_length:
  "length (fst (anonymizeMessages_loop anonymizeContent st msgs)) = length msgs"
  by (induction msgs arbitrary: st) (simp_all add: case_prod_beta)

lemma anonymizeMessages_loop_stable:
  assumes "prefix (an_mapping (snd (anonymizeMessages_loop anonymizeContent st msgs)))
             (an_mapping stF)"
    and "i < length msgs"
  shows "anonymizeMessage anonymizeContent stF (msgs ! i)
           = (fst (anonymizeMessages_loop anonymizeContent st msgs) ! i, stF)"
  using assms
proof (induction msgs arbitrary: st i)
  case Nil
  then show ?case by simp
next
  case (Cons msg rest)
  let ?s1 = "snd (anonymizeMessage anonymizeContent st msg)"
  let ?s2 = "snd (anonymizeMessages_loop anonymizeContent ?s1 rest)"
  from Cons.prems(1) have p2: "prefix (an_mapping ?s2) (an_mapping stF)"
    by (simp add: case_prod_beta)
  show ?case
  proof (cases i)
    case 0
    have "?s2 = feed (names_handed anonymizeContent rest) ?s1"
      using tracks_anonymizeMessages_loop [of anonymizeContent rest] by (simp add: tracks_def)
    then have "prefix (an_mapping ?s1) (an_mapping ?s2)" by (simp add: feed_prefix)
    from this p2 have "prefix (an_mapping ?s1) (an_mapping stF)"
      by (rule prefix_order.trans)
    with tracks_anonymizeMessage [of anonymizeContent msg]
    have "anonymizeMessage anonymizeContent stF msg
            = (fst (anonymizeMessage anonymizeContent st msg), stF)"
      by (simp add: tracks_def)
    with 0 show ?thesis by (simp add: case_prod_beta)
  next
    case (Suc k)
    with Cons.prems(2) have "k < length rest" by simp
    from Cons.IH [OF p2 this] Suc show ?thesis by (simp add: case_prod_beta)
  qed
qed

lemma anonymize_inv:
  assumes "anonymizer_inv st"
  shows "anonymizer_inv (snd (anonymize st u))"
proof (cases "u = [] \<or> map_of (an_mapping st) u \<noteq> None")
  case True
  with assms show ?thesis by (auto simp: anonymize_def)
next
  case False
  then have "snd (anonymize st u)
      = \<lparr>an_mapping = an_mapping st @ [(u, alias_of (an_counter st + 1))],
         an_counter = an_counter st + 1\<rparr>"
    by (simp add: anonymize_def Let_def)
  with assms show ?thesis by (simp add: anonymizer_inv_def)
qed

lemma feed_inv: "anonymizer_inv st \<Longrightarrow> anonymizer_inv (feed names st)"
  by (induction names arbitrary: st) (simp_all add: anonymize_inv)

lemma anonymize_keys:
  "map fst (an_mapping (snd (anonymize st u)))
     = map fst (an_mapping st)
       @ (if u \<noteq> [] \<and> u \<notin> set (map fst (an_mapping st)) then [u] else [])"
proof (cases "map_of (an_mapping st) u")
  case None
  then have "u \<notin> set (map fst (an_mapping st))"
    by (simp add: map_of_eq_None_iff)
  with None show ?thesis by (simp add: anonymize_def Let_def)
next
  case (Some a)
  then have "u \<in> set (map fst (an_mapping st))"
    using map_of_eq_None_iff [of "an_mapping st" u] by simp
  with Some show ?thesis by (simp add: anonymize_def)
qed

lemma set_first_appearances: "set (first_appearances xs) = set xs"
  by (induction xs rule: first_appearances.induct) auto

lemma distinct_first_appearances: "distinct (first_appearances xs)"
  by (induction xs rule: first_appearances.induct) (simp_all add: set_first_appearances)

lemma feed_keys:
  "map fst (an_mapping (feed names st))
     = map fst (an_mapping st)
       @ first_appearances
           (filter (\<lambda>u. u \<noteq> [] \<and> u \<notin> set (map fst (an_mapping st))) names)"
proof (induction names arbitrary: st)
  case Nil
  then show ?case by simp
next
  case (Cons u us)
  let ?K = "map fst (an_mapping st)"
  let ?st1 = "snd (anonymize st u)"
  show ?case
  proof (cases "u \<noteq> [] \<and> u \<notin> set ?K")
    case True
    then have K1: "map fst (an_mapping ?st1) = ?K @ [u]"
      by (simp add: anonymize_keys)
    have "filter (\<lambda>y. y \<noteq> u) (filter (\<lambda>v. v \<noteq> [] \<and> v \<notin> set ?K) us)
            = filter (\<lambda>v. v \<noteq> [] \<and> v \<notin> set (?K @ [u])) us"
      by (auto intro: filter_cong)
    with True Cons [of ?st1] K1 show ?thesis by simp
  next
    case False
    then have K1: "map fst (an_mapping ?st1) = ?K"
      by (simp add: anonymize_keys)
    with False Cons [of ?st1] show ?thesis by auto
  qed
qed

lemma distinct_aliases: "distinct (map alias_of [1..<Suc n])"
proof -
  have "inj_on alias_of (set [1..<Suc n])"
  proof (rule inj_onI)
    fix i j
    assume "i \<in> set [1..<Suc n]" "j \<in> set [1..<Suc n]" and eq: "alias_of i = alias_of j"
    then have "1 \<le> i" "1 \<le> j" by (simp_all del: upt_Suc)
    then show "i = j" using eq by (rule alias_of_inj)
  qed
  then show ?thesis by (simp add: distinct_map)
qed

lemma inv_lookup_alias:
  assumes "anonymizer_inv st" and "map_of (an_mapping st) u = Some x"
  shows "x \<noteq> ''User_Unknown''"
proof -
  from assms(2) have "x \<in> set (map snd (an_mapping st))"
    by (force dest: map_of_SomeD)
  with assms(1) obtain k where "x = alias_of k"
    by (auto simp: anonymizer_inv_def)
  then show ?thesis by (simp add: alias_of_not_Unknown)
qed

lemma distinct_values_key_eq:
  assumes "distinct (map snd xs)" and "map_of xs u = Some x" and "map_of xs v = Some x"
  shows "u = v"
proof -
  from assms(2,3) have "(u, x) \<in> set xs" "(v, x) \<in> set xs"
    by (auto dest: map_of_SomeD)
  with assms(1) show ?thesis
    by (metis distinct_map inj_onD prod.inject snd_conv)
qed

lemma known_alias_inj:
  assumes inv: "anonymizer_inv st"
    and u: "u = [] \<or> u \<in> set (map fst (an_mapping st))"
    and v: "v = [] \<or> v \<in> set (map fst (an_mapping st))"
    and eq: "fst (anonymize st u) = fst (anonymize st v)"
  shows "u = v"
proof -
  have look: "\<And>w. w \<noteq> [] \<Longrightarrow> w \<in> set (map fst (an_mapping st)) \<Longrightarrow>
      map_of (an_mapping st) w = Some (fst (anonymize st w))
      \<and> fst (anonymize st w) \<noteq> ''User_Unknown''"
  proof -
    fix w assume w: "w \<noteq> []" "w \<in> set (map fst (an_mapping st))"
    then obtain x where x: "map_of (an_mapping st) w = Some x"
      using map_of_eq_None_iff [of "an_mapping st" w] by auto
    with w(1) have "fst (anonymize st w) = x" by (simp add: anonymize_def)
    with x inv_lookup_alias [OF inv x]
    show "map_of (an_mapping st) w = Some (fst (anonymize st w))
      \<and> fst (anonymize st w) \<noteq> ''User_Unknown''" by simp
  qed
  have unk: "\<And>w. w = [] \<Longrightarrow> fst (anonymize st w) = ''User_Unknown''"
    by (simp add: anonymize_def)
  have dist: "distinct (map snd (an_mapping st))"
    using inv distinct_aliases [of "length (an_mapping st)"] by (simp add: anonymizer_inv_def)
  show ?thesis
  proof (cases "u = []")
    case True
    show ?thesis
    proof (cases "v = []")
      case True
      with \<open>u = []\<close> show ?thesis by simp
    next
      case False
      with v look [of v] have "fst (anonymize st v) \<noteq> ''User_Unknown''" by simp
      with unk [OF True] eq show ?thesis by simp
    qed
  next
    case False
    with u look [of u] have lu: "map_of (an_mapping st) u = Some (fst (anonymize st u))"
      and nu: "fst (anonymize st u) \<noteq> ''User_Unknown''" by simp_all
    show ?thesis
    proof (cases "v = []")
      case True
      with unk [of v] eq nu show ?thesis by simp
    next
      case False
      with v look [of v] have "map_of (an_mapping st) v = Some (fst (anonymize st v))" by simp
      with eq have "map_of (an_mapping st) v = Some (fst (anonymize st u))" by simp
      with dist lu show ?thesis by (rule distinct_values_key_eq)
    qed
  qed
qed

lemma author_of_anonymizeMessage:
  "am_author msg = Some a \<Longrightarrow>
     am_author (fst (anonymizeMessage anonymizeContent st msg))
       = Some (fst (anonymizeAuthor st a))"
  by (simp add: anonymizeMessage_def case_prod_beta)

lemma username_of_anonymizeAuthor:
  "au_username (fst (anonymizeAuthor st a)) = fst (anonymize st (au_username a))"
  by (simp add: anonymizeAuthor_def case_prod_beta)

lemma author_username_handed:
  assumes "i < length msgs" and "am_author (msgs ! i) = Some a"
  shows "au_username a \<in> set (names_handed anonymizeContent msgs)"
proof -
  have "au_username a \<in> set (message_names anonymizeContent (msgs ! i))"
    using assms(2) by (simp add: message_names_def author_names_def)
  moreover have "msgs ! i \<in> set msgs" using assms(1) by (rule nth_mem)
  ultimately show ?thesis by (auto simp: names_handed_def)
qed

lemma anonymize_known:
  assumes "u = [] \<or> u \<in> set (map fst (an_mapping st))"
  shows "anonymize st u = (alias_in (map_of (an_mapping st)) u, st)"
proof (cases "u = []")
  case True
  then show ?thesis by (simp add: anonymize_def alias_in_def)
next
  case False
  with assms obtain x where "map_of (an_mapping st) u = Some x"
    using map_of_eq_None_iff [of "an_mapping st" u] by auto
  with False show ?thesis by (simp add: anonymize_def alias_in_def)
qed

lemma anonymizeMentions_known:
  "(\<forall>w \<in> set (mention_names s). w = [] \<or> w \<in> set (map fst (an_mapping st))) \<Longrightarrow>
     anonymizeMentions st s = (substitute_mentions (alias_in (map_of (an_mapping st))) s, st)"
proof (induction s rule: mention_names.induct)
  case 1
  show ?case by simp
next
  case (2 c cs)
  show ?case
  proof (cases "c = CHR ''@'' \<and> takeWhile is_word_char cs \<noteq> []")
    case True
    let ?w = "takeWhile is_word_char cs" and ?rest = "dropWhile is_word_char cs"
    from "2.prems" True have w: "?w = [] \<or> ?w \<in> set (map fst (an_mapping st))"
      and rest: "\<forall>w \<in> set (mention_names ?rest). w = [] \<or> w \<in> set (map fst (an_mapping st))"
      by simp_all
    from "2.IH"(1) [OF True rest] anonymize_known [OF w] True
    show ?thesis by simp
  next
    case False
    with "2.prems" have
      "\<forall>w \<in> set (mention_names cs). w = [] \<or> w \<in> set (map fst (an_mapping st))"
      by auto
    from "2.IH"(2) [OF False this] False show ?thesis by auto
  qed
qed

lemma anonymizeAuthor_known:
  assumes "\<forall>w \<in> set (author_names a). w = [] \<or> w \<in> set (map fst (an_mapping st))"
  shows "anonymizeAuthor st a
           = (a\<lparr>au_username := alias_in (map_of (an_mapping st)) (au_username a),
                au_global_name :=
                  (if truthy (au_global_name a)
                   then Some (alias_in (map_of (an_mapping st)) (the (au_global_name a)))
                   else None)\<rparr>, st)"
proof -
  from assms have u: "au_username a = [] \<or> au_username a \<in> set (map fst (an_mapping st))"
    by (simp add: author_names_def)
  show ?thesis
  proof (cases "truthy (au_global_name a)")
    case True
    with assms have "the (au_global_name a) = []
        \<or> the (au_global_name a) \<in> set (map fst (an_mapping st))"
      by (simp add: author_names_def)
    with True u show ?thesis
      by (simp add: anonymizeAuthor_def anonymize_known)
  next
    case False
    with u show ?thesis by (simp add: anonymizeAuthor_def anonymize_known)
  qed
qed

lemma anonymizeText_known:
  assumes "\<forall>w \<in> set (text_names anonymizeContent t). w = [] \<or> w \<in> set (map fst (an_mapping st))"
  shows "anonymizeText anonymizeContent st t
           = ((if anonymizeContent \<and> truthy t
               then Some (substitute_mentions (alias_in (map_of (an_mapping st))) (the t))
               else t), st)"
proof (cases "anonymizeContent \<and> truthy t")
  case True
  with assms have "\<forall>w \<in> set (mention_names (the t)).
      w = [] \<or> w \<in> set (map fst (an_mapping st))"
    by (simp add: text_names_def)
  with True show ?thesis by (simp add: anonymizeText_def anonymizeMentions_known)
next
  case False
  then show ?thesis by (auto simp: anonymizeText_def)
qed

lemma anonymizeMessage_known:
  assumes "\<forall>w \<in> set (message_names anonymizeContent msg).
             w = [] \<or> w \<in> set (map fst (an_mapping st))"
  shows "anonymizeMessage anonymizeContent st msg
           = (anonymized_with (map_of (an_mapping st)) anonymizeContent msg, st)"
proof -
  from assms have
    c: "\<forall>w \<in> set (text_names anonymizeContent (am_content msg)).
          w = [] \<or> w \<in> set (map fst (an_mapping st))"
    and cc: "\<forall>w \<in> set (text_names anonymizeContent (am_clean_content msg)).
          w = [] \<or> w \<in> set (map fst (an_mapping st))"
    by (simp_all add: message_names_def)
  show ?thesis
  proof (cases "am_author msg")
    case None
    then show ?thesis
      by (simp add: anonymizeMessage_def anonymized_with_def anonymizeText_known [OF c]
          anonymizeText_known [OF cc])
  next
    case (Some a)
    with assms have "\<forall>w \<in> set (author_names a). w = [] \<or> w \<in> set (map fst (an_mapping st))"
      by (simp add: message_names_def)
    from anonymizeAuthor_known [OF this] Some show ?thesis
      by (simp add: anonymizeMessage_def anonymized_with_def anonymizeText_known [OF c]
          anonymizeText_known [OF cc])
  qed
qed

lemma message_names_handed:
  assumes "i < length msgs" and "w \<in> set (message_names anonymizeContent (msgs ! i))"
  shows "w \<in> set (names_handed anonymizeContent msgs)"
proof -
  have "msgs ! i \<in> set msgs" using assms(1) by (rule nth_mem)
  with assms(2) show ?thesis by (auto simp: names_handed_def)
qed

text \<open>
  C8. For one call \<open>anonymizeMessages msgs anonymizeContent = (out, mapping)\<close>, with
  \<open>names\<close> the non-empty names handed to the anonymizer in the order of their first
  appearance: the mapping holds exactly these names, and the name at position \<open>k\<close>
  (from 0) has the alias of \<open>k + 1\<close>, so the aliases are \<open>User_A\<close>, ..., \<open>User_Z\<close>,
  \<open>User_A1\<close>, ... in this order; two names with the same alias are the same name, and
  no alias is \<open>User_Unknown\<close>; every output message is the input message with every
  username, global name and mention replaced by the alias this one mapping holds for
  it; in particular the output username of an author is the alias of the username, and
  the output usernames of two authors are equal exactly when the usernames are.
\<close>

theorem anonymizeMessages_aliases:
  assumes "anonymizeMessages msgs anonymizeContent = (out, mapping)"
  shows "length out = length msgs
       \<and> dom mapping
           = set (first_appearances
                    (filter (\<lambda>u. u \<noteq> []) (names_handed anonymizeContent msgs)))
       \<and> (\<forall>k < length (first_appearances
                         (filter (\<lambda>u. u \<noteq> []) (names_handed anonymizeContent msgs))).
             mapping (first_appearances
                        (filter (\<lambda>u. u \<noteq> []) (names_handed anonymizeContent msgs)) ! k)
               = Some (alias_of (Suc k)))
       \<and> (\<forall>u v x. mapping u = Some x \<and> mapping v = Some x \<longrightarrow> u = v)
       \<and> (\<forall>u. mapping u \<noteq> Some ''User_Unknown'')
       \<and> (\<forall>i<length msgs. out ! i = anonymized_with mapping anonymizeContent (msgs ! i))
       \<and> (\<forall>i<length msgs. \<forall>a. am_author (msgs ! i) = Some a \<longrightarrow>
             (\<exists>a'. am_author (out ! i) = Some a'
                \<and> (if au_username a = [] then au_username a' = ''User_Unknown''
                    else mapping (au_username a) = Some (au_username a'))))
       \<and> (\<forall>i<length msgs. \<forall>j<length msgs. \<forall>a b.
             am_author (msgs ! i) = Some a \<and> am_author (msgs ! j) = Some b \<longrightarrow>
             (\<exists>a' b'. am_author (out ! i) = Some a' \<and> am_author (out ! j) = Some b'
                \<and> (au_username a' = au_username b' \<longleftrightarrow> au_username a = au_username b)))"
proof -
  let ?handed = "names_handed anonymizeContent msgs"
  let ?names = "first_appearances (filter (\<lambda>u. u \<noteq> []) ?handed)"
  let ?run = "anonymizeMessages_loop anonymizeContent createAnonymizer msgs"
  let ?fin = "snd ?run"
  let ?mp = "an_mapping ?fin"
  from assms have out: "out = fst ?run" and mapping: "mapping = map_of ?mp"
    by (simp_all add: anonymizeMessages_def case_prod_beta)
  have fin: "?fin = feed ?handed createAnonymizer"
    using tracks_anonymizeMessages_loop [of anonymizeContent msgs] by (simp add: tracks_def)
  have "anonymizer_inv createAnonymizer"
    by (simp add: anonymizer_inv_def createAnonymizer_def)
  then have "anonymizer_inv (feed ?handed createAnonymizer)" by (rule feed_inv)
  then have inv: "anonymizer_inv ?fin" by (simp only: fin)
  have "map fst (an_mapping (feed ?handed createAnonymizer)) = ?names"
    using feed_keys [of ?handed createAnonymizer] by (simp add: createAnonymizer_def)
  then have keys: "map fst ?mp = ?names" by (simp only: fin)
  have vals: "map snd ?mp = map alias_of [1..<Suc (length ?mp)]"
    using inv by (simp add: anonymizer_inv_def)
  have len: "length ?mp = length ?names"
    using arg_cong [OF keys, of length] by simp
  have dk: "distinct (map fst ?mp)"
    by (simp only: keys distinct_first_appearances)
  have dv: "distinct (map snd ?mp)"
    using distinct_aliases [of "length ?mp"] by (simp only: vals)
  have c1: "length out = length msgs"
    unfolding out by (rule anonymizeMessages_loop_length)
  have c2: "dom mapping = set ?names"
    unfolding mapping using arg_cong [OF keys, of set]
    by (simp add: dom_map_of_conv_image_fst)
  have c3: "\<forall>k < length ?names. mapping (?names ! k) = Some (alias_of (Suc k))"
  proof (intro allI impI)
    fix k assume k: "k < length ?names"
    then have kl: "k < length ?mp" by (simp only: len)
    have "fst (?mp ! k) = map fst ?mp ! k" using kl by simp
    then have f: "fst (?mp ! k) = ?names ! k" by (simp only: keys)
    have "snd (?mp ! k) = map snd ?mp ! k" using kl by simp
    also have "\<dots> = map alias_of [1..<Suc (length ?mp)] ! k" by (simp only: vals)
    also have "\<dots> = alias_of (Suc k)" using kl by (simp del: upt_Suc)
    finally have s: "snd (?mp ! k) = alias_of (Suc k)" .
    have "?mp ! k \<in> set ?mp" using kl by (rule nth_mem)
    then have "(?names ! k, alias_of (Suc k)) \<in> set ?mp"
      using f s by (metis prod.collapse)
    with dk have "map_of ?mp (?names ! k) = Some (alias_of (Suc k))"
      by (rule map_of_is_SomeI)
    then show "mapping (?names ! k) = Some (alias_of (Suc k))" by (simp only: mapping)
  qed
  have c4: "\<forall>u v x. mapping u = Some x \<and> mapping v = Some x \<longrightarrow> u = v"
    unfolding mapping using distinct_values_key_eq [OF dv] by blast
  have c5: "\<forall>u. mapping u \<noteq> Some ''User_Unknown''"
    unfolding mapping using inv_lookup_alias [OF inv] by blast
  have stable: "\<And>i. i < length msgs \<Longrightarrow>
      anonymizeMessage anonymizeContent ?fin (msgs ! i) = (out ! i, ?fin)"
    unfolding out by (rule anonymizeMessages_loop_stable) simp_all
  have handed_known: "\<And>w. w \<in> set ?handed \<Longrightarrow> w = [] \<or> w \<in> set (map fst ?mp)"
  proof -
    fix w assume "w \<in> set ?handed"
    then have "w = [] \<or> w \<in> set ?names" by (simp add: set_first_appearances)
    then show "w = [] \<or> w \<in> set (map fst ?mp)" by (simp only: keys)
  qed
  have c6: "\<forall>i<length msgs. out ! i = anonymized_with mapping anonymizeContent (msgs ! i)"
  proof (intro allI impI)
    fix i assume i: "i < length msgs"
    have "\<forall>w \<in> set (message_names anonymizeContent (msgs ! i)).
            w = [] \<or> w \<in> set (map fst ?mp)"
      using message_names_handed [OF i] handed_known by blast
    from anonymizeMessage_known [OF this] stable [OF i]
    show "out ! i = anonymized_with mapping anonymizeContent (msgs ! i)"
      by (simp add: mapping)
  qed
  have known: "\<And>i a. i < length msgs \<Longrightarrow> am_author (msgs ! i) = Some a \<Longrightarrow>
      au_username a = [] \<or> au_username a \<in> set (map fst ?mp)"
  proof -
    fix i a assume "i < length msgs" "am_author (msgs ! i) = Some a"
    then have "au_username a \<in> set ?handed" by (rule author_username_handed)
    then show "au_username a = [] \<or> au_username a \<in> set (map fst ?mp)"
      by (rule handed_known)
  qed
  have outauthor: "\<And>i a. i < length msgs \<Longrightarrow> am_author (msgs ! i) = Some a \<Longrightarrow>
      am_author (out ! i) = Some (fst (anonymizeAuthor ?fin a))"
  proof -
    fix i a assume i: "i < length msgs" and a: "am_author (msgs ! i) = Some a"
    from stable [OF i] have "out ! i = fst (anonymizeMessage anonymizeContent ?fin (msgs ! i))"
      by simp
    with author_of_anonymizeMessage [OF a, of anonymizeContent ?fin]
    show "am_author (out ! i) = Some (fst (anonymizeAuthor ?fin a))" by simp
  qed
  have c7: "\<forall>i<length msgs. \<forall>a. am_author (msgs ! i) = Some a \<longrightarrow>
             (\<exists>a'. am_author (out ! i) = Some a'
                \<and> (if au_username a = [] then au_username a' = ''User_Unknown''
                    else mapping (au_username a) = Some (au_username a')))"
  proof (intro allI impI)
    fix i a assume i: "i < length msgs" and a: "am_author (msgs ! i) = Some a"
    let ?a = "fst (anonymizeAuthor ?fin a)"
    have u: "au_username ?a = fst (anonymize ?fin (au_username a))"
      by (rule username_of_anonymizeAuthor)
    have "if au_username a = [] then au_username ?a = ''User_Unknown''
          else mapping (au_username a) = Some (au_username ?a)"
    proof (cases "au_username a = []")
      case True
      then show ?thesis by (simp add: u anonymize_def)
    next
      case False
      with known [OF i a] obtain x where x: "map_of ?mp (au_username a) = Some x"
        using map_of_eq_None_iff [of ?mp "au_username a"] by auto
      with False have "fst (anonymize ?fin (au_username a)) = x"
        by (simp add: anonymize_def)
      with False x show ?thesis by (simp add: u mapping)
    qed
    with outauthor [OF i a]
    show "\<exists>a'. am_author (out ! i) = Some a'
                \<and> (if au_username a = [] then au_username a' = ''User_Unknown''
                    else mapping (au_username a) = Some (au_username a'))"
      by blast
  qed
  have c8: "\<forall>i<length msgs. \<forall>j<length msgs. \<forall>a b.
             am_author (msgs ! i) = Some a \<and> am_author (msgs ! j) = Some b \<longrightarrow>
             (\<exists>a' b'. am_author (out ! i) = Some a' \<and> am_author (out ! j) = Some b'
                \<and> (au_username a' = au_username b' \<longleftrightarrow> au_username a = au_username b))"
  proof (intro allI impI)
    fix i j a b
    assume i: "i < length msgs" and j: "j < length msgs"
      and ab: "am_author (msgs ! i) = Some a \<and> am_author (msgs ! j) = Some b"
    let ?a = "fst (anonymizeAuthor ?fin a)" and ?b = "fst (anonymizeAuthor ?fin b)"
    have "au_username ?a = au_username ?b \<longleftrightarrow> au_username a = au_username b"
    proof
      assume "au_username ?a = au_username ?b"
      then have "fst (anonymize ?fin (au_username a)) = fst (anonymize ?fin (au_username b))"
        by (simp only: username_of_anonymizeAuthor)
      with known_alias_inj [OF inv known [OF i] known [OF j]] ab
      show "au_username a = au_username b" by blast
    next
      assume "au_username a = au_username b"
      then show "au_username ?a = au_username ?b"
        by (simp only: username_of_anonymizeAuthor)
    qed
    with outauthor [OF i] outauthor [OF j] ab
    show "\<exists>a' b'. am_author (out ! i) = Some a' \<and> am_author (out ! j) = Some b'
                \<and> (au_username a' = au_username b' \<longleftrightarrow> au_username a = au_username b)"
      by blast
  qed
  from c1 c2 c3 c4 c5 c6 c7 c8 show ?thesis by blast
qed

theorem anonymizeMessages_aliases_witness:
  "fst (anonymizeMessages
     [\<lparr>am_author = Some \<lparr>au_username = ''alice'', au_global_name = Some ''Al''\<rparr>,
       am_author_id = Some ''1234567890'', am_content = Some ''hi @bob and @carol_9!'',
       am_clean_content = None\<rparr>,
      \<lparr>am_author = Some \<lparr>au_username = ''bob'', au_global_name = None\<rparr>,
       am_author_id = Some ''222'', am_content = Some ''hello'', am_clean_content = None\<rparr>,
      \<lparr>am_author = Some \<lparr>au_username = ''alice'', au_global_name = Some ''Al''\<rparr>,
       am_author_id = Some ''1234567890'', am_content = Some ''bye'',
       am_clean_content = None\<rparr>] True)
   = [\<lparr>am_author = Some \<lparr>au_username = ''User_A'', au_global_name = Some ''User_B''\<rparr>,
        am_author_id = Some ''anon_7890'', am_content = Some ''hi @User_C and @User_D!'',
        am_clean_content = None\<rparr>,
       \<lparr>am_author = Some \<lparr>au_username = ''User_C'', au_global_name = None\<rparr>,
        am_author_id = Some ''anon_222'', am_content = Some ''hello'',
        am_clean_content = None\<rparr>,
       \<lparr>am_author = Some \<lparr>au_username = ''User_A'', au_global_name = Some ''User_B''\<rparr>,
        am_author_id = Some ''anon_7890'', am_content = Some ''bye'',
        am_clean_content = None\<rparr>]
   \<and> map (snd (anonymizeMessages
     [\<lparr>am_author = Some \<lparr>au_username = ''alice'', au_global_name = Some ''Al''\<rparr>,
       am_author_id = Some ''1234567890'', am_content = Some ''hi @bob and @carol_9!'',
       am_clean_content = None\<rparr>,
      \<lparr>am_author = Some \<lparr>au_username = ''bob'', au_global_name = None\<rparr>,
       am_author_id = Some ''222'', am_content = Some ''hello'', am_clean_content = None\<rparr>,
      \<lparr>am_author = Some \<lparr>au_username = ''alice'', au_global_name = Some ''Al''\<rparr>,
       am_author_id = Some ''1234567890'', am_content = Some ''bye'',
       am_clean_content = None\<rparr>] True))
       [''alice'', ''Al'', ''bob'', ''carol_9'', ''hi'']
     = [Some ''User_A'', Some ''User_B'', Some ''User_C'', Some ''User_D'', None]
   \<and> dom (snd (anonymizeMessages
     [\<lparr>am_author = Some \<lparr>au_username = ''alice'', au_global_name = Some ''Al''\<rparr>,
       am_author_id = Some ''1234567890'', am_content = Some ''hi @bob and @carol_9!'',
       am_clean_content = None\<rparr>,
      \<lparr>am_author = Some \<lparr>au_username = ''bob'', au_global_name = None\<rparr>,
       am_author_id = Some ''222'', am_content = Some ''hello'', am_clean_content = None\<rparr>,
      \<lparr>am_author = Some \<lparr>au_username = ''alice'', au_global_name = Some ''Al''\<rparr>,
       am_author_id = Some ''1234567890'', am_content = Some ''bye'',
       am_clean_content = None\<rparr>] True))
     = {''alice'', ''Al'', ''bob'', ''carol_9''}
   \<and> map alias_of [1, 2, 26, 27, 28, 52, 53]
     = [''User_A'', ''User_B'', ''User_Z'', ''User_A1'', ''User_B1'', ''User_Z1'', ''User_A2'']"
proof -
  let ?msgs = "[\<lparr>am_author = Some \<lparr>au_username = ''alice'', au_global_name = Some ''Al''\<rparr>,
       am_author_id = Some ''1234567890'', am_content = Some ''hi @bob and @carol_9!'',
       am_clean_content = None\<rparr>,
      \<lparr>am_author = Some \<lparr>au_username = ''bob'', au_global_name = None\<rparr>,
       am_author_id = Some ''222'', am_content = Some ''hello'', am_clean_content = None\<rparr>,
      \<lparr>am_author = Some \<lparr>au_username = ''alice'', au_global_name = Some ''Al''\<rparr>,
       am_author_id = Some ''1234567890'', am_content = Some ''bye'',
       am_clean_content = None\<rparr>]"
  let ?out = "[\<lparr>am_author = Some \<lparr>au_username = ''User_A'', au_global_name = Some ''User_B''\<rparr>,
        am_author_id = Some ''anon_7890'', am_content = Some ''hi @User_C and @User_D!'',
        am_clean_content = None\<rparr>,
       \<lparr>am_author = Some \<lparr>au_username = ''User_C'', au_global_name = None\<rparr>,
        am_author_id = Some ''anon_222'', am_content = Some ''hello'',
        am_clean_content = None\<rparr>,
       \<lparr>am_author = Some \<lparr>au_username = ''User_A'', au_global_name = Some ''User_B''\<rparr>,
        am_author_id = Some ''anon_7890'', am_content = Some ''bye'',
        am_clean_content = None\<rparr>]"
  let ?run = "anonymizeMessages ?msgs True"
  have run: "?run = (fst ?run, snd ?run)"
    by simp
  have out: "fst ?run = ?out"
    by code_simp
  have lookups: "map (snd ?run) [''alice'', ''Al'', ''bob'', ''carol_9'', ''hi'']
     = [Some ''User_A'', Some ''User_B'', Some ''User_C'', Some ''User_D'', None]"
    by code_simp
  have names: "first_appearances (filter (\<lambda>u. u \<noteq> []) (names_handed True ?msgs))
     = [''alice'', ''Al'', ''bob'', ''carol_9'']"
    by code_simp
  have seq: "map alias_of [1, 2, 26, 27, 28, 52, 53]
     = [''User_A'', ''User_B'', ''User_Z'', ''User_A1'', ''User_B1'', ''User_Z1'', ''User_A2'']"
    by code_simp
  from anonymizeMessages_aliases [OF run]
  have "dom (snd ?run)
     = set (first_appearances (filter (\<lambda>u. u \<noteq> []) (names_handed True ?msgs)))"
    by (rule conjunct1 [OF conjunct2])
  then have "dom (snd ?run) = {''alice'', ''Al'', ''bob'', ''carol_9''}"
    by (simp only: names list.set)
  with out lookups seq show ?thesis by (intro conjI)
qed

end
